theory Spec2Isabelle
  imports Main "HOL-Library.Product_Lexorder" "HOL-Library.Stream"
begin

section \<open>Cells and sentences\<close>

text \<open>
  A cell is a pair \<open>(row, column)\<close> of Python integers. A \<open>Sentence\<close> object has the two
  fields \<open>cells\<close> (a Python set of cells) and \<open>count\<close>.
\<close>

type_synonym cell = "int \<times> int"

record sentence =
  cells :: "cell set"
  count :: int

text \<open>\<open>Sentence.__init__\<close>: \<open>self.cells = set(cells); self.count = count\<close>.\<close>

definition Sentence :: "cell set \<Rightarrow> int \<Rightarrow> sentence" where
  "Sentence cs n = \<lparr>cells = cs, count = n\<rparr>"

text \<open>\<open>Sentence.__eq__\<close>; Python derives \<open>!=\<close> from it by negation.\<close>

definition sentence_eq :: "sentence \<Rightarrow> sentence \<Rightarrow> bool" where
  "sentence_eq s other \<longleftrightarrow> cells s = cells other \<and> count s = count other"

text \<open>
  The two queries are modelled as methods on the receiving object: they return the result
  together with the object's state after the call.
\<close>

definition known_mines :: "sentence \<Rightarrow> cell set \<times> sentence" where
  "known_mines s = (if count s = int (card (cells s)) then (cells s, s) else ({}, s))"

definition known_safes :: "sentence \<Rightarrow> cell set \<times> sentence" where
  "known_safes s = (if count s = 0 then (cells s, s) else ({}, s))"

text \<open>\<open>Sentence.mark_mine\<close> and \<open>Sentence.mark_safe\<close> return the object's new state.\<close>

definition sentence_mark_mine :: "cell \<Rightarrow> sentence \<Rightarrow> sentence" where
  "sentence_mark_mine cell s =
     (if cell \<in> cells s then s\<lparr>cells := cells s - {cell}, count := count s - 1\<rparr> else s)"

definition sentence_mark_safe :: "cell \<Rightarrow> sentence \<Rightarrow> sentence" where
  "sentence_mark_safe cell s =
     (if cell \<in> cells s then s\<lparr>cells := cells s - {cell}\<rparr> else s)"

section \<open>The agent\<close>

text \<open>
  \<open>self.knowledge\<close> is a Python list of references to mutable \<open>Sentence\<close> objects, and
  \<open>add_knowledge\<close> iterates over one list object while it rebinds \<open>self.knowledge\<close> to
  another list that shares the objects. The objects therefore live in an explicit store
  \<open>heap\<close>: a reference is an index into it, allocation appends to it.

  \<open>history\<close> is an auxiliary variable, written but never read by the program: it records
  the contents of the knowledge base after every agent-level step that changes them.
\<close>

type_synonym ref = nat

record ai =
  height :: int
  width :: int
  moves_made :: "cell set"
  mines :: "cell set"
  safes :: "cell set"
  knowledge :: "ref list"
  heap :: "sentence list"
  history :: "sentence list list"

text \<open>\<open>MinesweeperAI.__init__\<close>.\<close>

definition new_ai :: "int \<Rightarrow> int \<Rightarrow> ai" where
  "new_ai h w = \<lparr>height = h, width = w, moves_made = {}, mines = {}, safes = {},
     knowledge = [], heap = [], history = []\<rparr>"

text \<open>The sentences the knowledge base currently holds, in list order.\<close>

definition kb_values :: "ai \<Rightarrow> sentence list" where
  "kb_values st = map (\<lambda>r. heap st ! r) (knowledge st)"

definition observe :: "ai \<Rightarrow> ai" where
  "observe st = st\<lparr>history := history st @ [kb_values st]\<rparr>"

text \<open>
  \<open>MinesweeperAI.mark_mine\<close> and \<open>MinesweeperAI.mark_safe\<close>: add the cell to the certainty
  set, then call the sentence-level method on every object of \<open>self.knowledge\<close>.
\<close>

definition mark_mine :: "cell \<Rightarrow> ai \<Rightarrow> ai" where
  "mark_mine cell st = observe (st\<lparr>mines := insert cell (mines st),
     heap := fold (\<lambda>r h. h[r := sentence_mark_mine cell (h ! r)]) (knowledge st) (heap st)\<rparr>)"

definition mark_safe :: "cell \<Rightarrow> ai \<Rightarrow> ai" where
  "mark_safe cell st = observe (st\<lparr>safes := insert cell (safes st),
     heap := fold (\<lambda>r h. h[r := sentence_mark_safe cell (h ! r)]) (knowledge st) (heap st)\<rparr>)"

text \<open>
  Lines 202-209: the in-bounds cells of the 3x3 block around \<open>cell\<close> that are not known to be
  safe.
\<close>

definition neighbour_cells :: "ai \<Rightarrow> cell \<Rightarrow> cell set" where
  "neighbour_cells st cell = set [(row, col).
     row \<leftarrow> [fst cell - 1 .. fst cell + 1], 0 \<le> row \<and> row < height st,
     col \<leftarrow> [snd cell - 1 .. snd cell + 1], 0 \<le> col \<and> col < width st,
     (row, col) \<notin> safes st]"

text \<open>\<open>s in self.knowledge\<close>: list membership by \<open>__eq__\<close>.\<close>

definition in_knowledge :: "sentence \<Rightarrow> ai \<Rightarrow> bool" where
  "in_knowledge s st \<longleftrightarrow> (\<exists>r \<in> set (knowledge st). sentence_eq s (heap st ! r))"

text \<open>\<open>self.knowledge.append(s)\<close> for a freshly constructed sentence object \<open>s\<close>.\<close>

definition append_sentence :: "sentence \<Rightarrow> ai \<Rightarrow> ai" where
  "append_sentence s st =
     observe (st\<lparr>knowledge := knowledge st @ [length (heap st)], heap := heap st @ [s]\<rparr>)"

text \<open>
  Lines 233-240, \<open>for other_sentence in self.knowledge\<close>. The list is appended to while it
  is iterated, and Python's list iterator re-reads the length at every step: \<open>j\<close> is the
  iterator's index. \<open>r\<close> is the reference held by the outer loop variable \<open>sentence\<close>.
  Not returning is the value \<open>None\<close>.
\<close>

partial_function (option) for_other_sentence :: "ref \<Rightarrow> nat \<Rightarrow> ai \<Rightarrow> ai option" where
  "for_other_sentence r j st =
     (if j < length (knowledge st) then
        (let sentence = heap st ! r;
             other_sentence = heap st ! (knowledge st ! j)
         in if \<not> sentence_eq sentence other_sentence
               \<and> cells other_sentence \<subseteq> cells sentence
            then
              (let difference_cells = cells sentence - cells other_sentence;
                   difference_count = count sentence - count other_sentence;
                   subset_sentence = Sentence difference_cells difference_count
               in if \<not> in_knowledge subset_sentence st
                  then for_other_sentence r (j + 1) (append_sentence subset_sentence st)
                  else for_other_sentence r (j + 1) st)
            else for_other_sentence r (j + 1) st)
      else Some st)"

declare for_other_sentence.simps [code]

text \<open>
  One iteration of \<open>for sentence in self.knowledge\<close> (lines 221-240). Python iterates a set
  in an order the program does not control; \<open>ord\<close> is that order, a parameter of the model.
\<close>

definition loop_body :: "(cell set \<Rightarrow> cell list) \<Rightarrow> ref \<Rightarrow> ai \<Rightarrow> ai option" where
  "loop_body ord r st =
     (let sentence_safes = fst (known_safes (heap st ! r));
          sentence_mines = fst (known_mines (heap st ! r));
          st1 = fold mark_safe (ord sentence_safes) st;
          st2 = fold mark_mine (ord sentence_mines) st1;
          st3 = observe (st2\<lparr>knowledge :=
                  filter (\<lambda>s. card (cells (heap st2 ! s)) > 0) (knowledge st2)\<rparr>)
      in for_other_sentence r 0 st3)"

text \<open>
  The outer loop runs over the list object that \<open>self.knowledge\<close> named when the loop
  started. Every iteration rebinds \<open>self.knowledge\<close> to a new list, so that list is never
  appended to: the loop visits exactly the references \<open>rs\<close>.
\<close>

fun for_sentence :: "(cell set \<Rightarrow> cell list) \<Rightarrow> ref list \<Rightarrow> ai \<Rightarrow> ai option" where
  "for_sentence ord [] st = Some st"
| "for_sentence ord (r # rs) st =
     (case loop_body ord r st of None \<Rightarrow> None | Some st' \<Rightarrow> for_sentence ord rs st')"

definition add_knowledge :: "(cell set \<Rightarrow> cell list) \<Rightarrow> cell \<Rightarrow> int \<Rightarrow> ai \<Rightarrow> ai option" where
  "add_knowledge ord cell n st =
     (let st1 = st\<lparr>moves_made := insert cell (moves_made st)\<rparr>;
          st2 = (if cell \<notin> safes st1 then mark_safe cell st1 else st1);
          neighbours = neighbour_cells st2 cell;
          known_mines_in_neighbours = Set.filter (\<lambda>c. c \<in> mines st2) neighbours;
          neighbours' = neighbours - known_mines_in_neighbours;
          n' = n - int (card known_mines_in_neighbours);
          new_sentence = Sentence neighbours' n';
          st3 = (if \<not> in_knowledge new_sentence st2 \<and> cells new_sentence \<noteq> {}
                 then append_sentence new_sentence st2 else st2)
      in for_sentence ord (knowledge st3) st3)"

text \<open>A sequence of \<open>add_knowledge\<close> calls.\<close>

fun add_all :: "(cell set \<Rightarrow> cell list) \<Rightarrow> (cell \<times> int) list \<Rightarrow> ai \<Rightarrow> ai option" where
  "add_all ord [] st = Some st"
| "add_all ord ((cell, n) # obs) st =
     (case add_knowledge ord cell n st of None \<Rightarrow> None | Some st' \<Rightarrow> add_all ord obs st')"

text \<open>
  \<open>make_safe_move\<close>: the first cell of \<open>self.safes\<close>, in the set's iteration order, that is
  not in \<open>self.moves_made\<close>. The result is paired with the agent's state after the call.
\<close>

definition make_safe_move :: "(cell set \<Rightarrow> cell list) \<Rightarrow> ai \<Rightarrow> cell option \<times> ai" where
  "make_safe_move ord st = (find (\<lambda>safe_cell. safe_cell \<notin> moves_made st) (ord (safes st)), st)"

text \<open>\<open>ord\<close> is an iteration order: it lists every finite set, each element once.\<close>

definition iteration_order :: "(cell set \<Rightarrow> cell list) \<Rightarrow> bool" where
  "iteration_order ord \<longleftrightarrow> (\<forall>S. finite S \<longrightarrow> set (ord S) = S \<and> distinct (ord S))"

section \<open>Random moves\<close>

datatype error = ValueError

text \<open>
  \<open>random.randrange(n)\<close> raises \<open>ValueError\<close> for \<open>n \<le> 0\<close> and otherwise returns some
  number of \<open>range(n)\<close>. The random source is a stream of integers; reducing its head
  modulo \<open>n\<close> reaches every number of the range.
\<close>

definition randrange :: "int \<Rightarrow> int stream \<Rightarrow> error + (int \<times> int stream)" where
  "randrange n rng = (if n \<le> 0 then Inl ValueError else Inr (shd rng mod n, stl rng))"

definition random_cell :: "ai \<Rightarrow> int stream \<Rightarrow> error + (cell \<times> int stream)" where
  "random_cell st rng =
     (case randrange (height st) rng of Inl e \<Rightarrow> Inl e
      | Inr (row, rng1) \<Rightarrow>
          (case randrange (width st) rng1 of Inl e \<Rightarrow> Inl e
           | Inr (col, rng2) \<Rightarrow> Inr ((row, col), rng2)))"

text \<open>The \<open>while\<close> loop of lines 268-274; it returns the last cell drawn and the counter.\<close>

function sample_loop :: "ai \<Rightarrow> cell \<Rightarrow> int \<Rightarrow> int stream \<Rightarrow> error + (cell \<times> int \<times> int stream)" where
  "sample_loop st cell counter rng =
     (if cell \<in> mines st \<or> cell \<in> moves_made st then
        (case random_cell st rng of Inl e \<Rightarrow> Inl e
         | Inr (cell', rng') \<Rightarrow>
             (if counter + 1 \<ge> 10 then Inr (cell', counter + 1, rng')
              else sample_loop st cell' (counter + 1) rng'))
      else Inr (cell, counter, rng))"
  by pat_completeness auto
termination
  by (relation "measure (\<lambda>(st, cell, counter, rng). nat (10 - counter))") auto

text \<open>The cells of the grid in row-major order (lines 279-281).\<close>

definition grid_cells :: "ai \<Rightarrow> cell list" where
  "grid_cells st = [(row, col). row \<leftarrow> [0 .. height st - 1], col \<leftarrow> [0 .. width st - 1]]"

definition make_random_move :: "ai \<Rightarrow> int stream \<Rightarrow> error + (cell option \<times> int stream)" where
  "make_random_move st rng =
     (case random_cell st rng of Inl e \<Rightarrow> Inl e
      | Inr (cell, rng1) \<Rightarrow>
          (case sample_loop st cell 0 rng1 of Inl e \<Rightarrow> Inl e
           | Inr (cell', counter, rng2) \<Rightarrow>
               (if counter < 10 then Inr (Some cell', rng2)
                else Inr (find (\<lambda>c. c \<notin> mines st \<and> c \<notin> moves_made st) (grid_cells st), rng2))))"

section \<open>The environment\<close>

text \<open>
  The part of class \<open>Minesweeper\<close> that answers the agent's queries: the dimensions and
  \<open>board\<close>, a list of rows of booleans. \<open>__init__\<close> builds \<open>height\<close> rows of \<open>width\<close>
  entries and nothing resizes them afterwards.
\<close>

record minesweeper =
  board_height :: int
  board_width :: int
  board :: "bool list list"

text \<open>Python's \<open>xs[i]\<close>: a negative index counts from the end; \<open>None\<close> is \<open>IndexError\<close>.\<close>

definition index :: "'a list \<Rightarrow> int \<Rightarrow> 'a option" where
  "index xs i =
     (let n = int (length xs); k = (if i < 0 then i + n else i)
      in if 0 \<le> k \<and> k < n then Some (xs ! nat k) else None)"

definition is_mine :: "minesweeper \<Rightarrow> cell \<Rightarrow> bool option" where
  "is_mine g cell =
     (case cell of (i, j) \<Rightarrow>
        (case index (board g) i of None \<Rightarrow> None | Some row \<Rightarrow> index row j))"

text \<open>
  \<open>nearby_mines\<close> (lines 55-78) counts the cells of the 3x3 block, the cell itself left out,
  that are in bounds and hold a mine. The bounds check keeps both indices inside the board.
\<close>

definition nearby_mines :: "minesweeper \<Rightarrow> cell \<Rightarrow> int" where
  "nearby_mines g cell = int (length [(i, j).
     i \<leftarrow> [fst cell - 1 .. fst cell + 1],
     j \<leftarrow> [snd cell - 1 .. snd cell + 1],
     (i, j) \<noteq> cell,
     0 \<le> i \<and> i < board_height g \<and> 0 \<le> j \<and> j < board_width g,
     board g ! nat i ! nat j])"

text \<open>
  A list of observations comes from a consistent environment: the board has the shape
  \<open>__init__\<close> gives it, and every observation \<open>(cell, n)\<close> is what the game loop passes
  to \<open>add_knowledge\<close> for a cell that is in bounds and not a mine.
\<close>

definition consistent :: "minesweeper \<Rightarrow> (cell \<times> int) list \<Rightarrow> bool" where
  "consistent g obs \<longleftrightarrow>
     length (board g) = nat (board_height g) \<and>
     (\<forall>row \<in> set (board g). length row = nat (board_width g)) \<and>
     (\<forall>(cell, n) \<in> set obs.
        0 \<le> fst cell \<and> fst cell < board_height g \<and>
        0 \<le> snd cell \<and> snd cell < board_width g \<and>
        is_mine g cell = Some False \<and> n = nearby_mines g cell)"

text \<open>A cell is valid when it lies on the agent's grid.\<close>

definition in_bounds :: "ai \<Rightarrow> cell \<Rightarrow> bool" where
  "in_bounds st c \<longleftrightarrow> 0 \<le> fst c \<and> fst c < height st \<and> 0 \<le> snd c \<and> snd c < width st"

text \<open>
  The \<open>k\<close>-th cell that \<open>make_random_move\<close> draws from the random source (two numbers per
  cell), and the cells it may return.
\<close>

definition drawn :: "ai \<Rightarrow> int stream \<Rightarrow> nat \<Rightarrow> cell" where
  "drawn st rng k = (rng !! (2 * k) mod height st, rng !! (2 * k + 1) mod width st)"

definition eligible :: "ai \<Rightarrow> cell \<Rightarrow> bool" where
  "eligible st c \<longleftrightarrow> c \<notin> mines st \<and> c \<notin> moves_made st"

section \<open>Invariants\<close>

text \<open>Every reference of the knowledge base points into the store, and none occurs twice.\<close>

definition valid_refs :: "ai \<Rightarrow> bool" where
  "valid_refs st \<longleftrightarrow> distinct (knowledge st) \<and> (\<forall>r \<in> set (knowledge st). r < length (heap st))"

text \<open>A sentence is true of the mine set \<open>M\<close>: exactly \<open>count\<close> of its cells are mines.\<close>

definition true_sentence :: "cell set \<Rightarrow> sentence \<Rightarrow> bool" where
  "true_sentence M s \<longleftrightarrow> finite (cells s) \<and> count s = int (card (cells s \<inter> M))"

text \<open>The range invariant of the data model: \<open>0 \<le> count \<le> |cells|\<close>.\<close>

definition count_in_range :: "sentence \<Rightarrow> bool" where
  "count_in_range s \<longleftrightarrow> 0 \<le> count s \<and> count s \<le> int (card (cells s))"

text \<open>
  The invariant of the agent relative to the mine set \<open>M\<close> of the board: the sentences of
  the knowledge base are true and mention no marked cell, the certainty sets are right, and
  every sentence the knowledge base ever held had its count in range.
\<close>

definition sound :: "cell set \<Rightarrow> ai \<Rightarrow> bool" where
  "sound M st \<longleftrightarrow> valid_refs st \<and>
     (\<forall>s \<in> set (kb_values st). true_sentence M s \<and> cells s \<inter> (safes st \<union> mines st) = {}) \<and>
     safes st \<inter> M = {} \<and> mines st \<subseteq> M \<and>
     (\<forall>snap \<in> set (history st). \<forall>s \<in> set snap. count_in_range s)"

text \<open>
  A reference the outer loop still has to visit: its object is in the knowledge base, or
  it was dropped from it as the empty sentence.
\<close>

definition pending :: "ai \<Rightarrow> ref \<Rightarrow> bool" where
  "pending st r \<longleftrightarrow>
     r < length (heap st) \<and> (r \<in> set (knowledge st) \<or> heap st ! r = \<lparr>cells = {}, count = 0\<rparr>)"

text \<open>What the inner loop does to a state: it only appends.\<close>

definition grows :: "ai \<Rightarrow> ai \<Rightarrow> bool" where
  "grows st st' \<longleftrightarrow>
     (\<exists>ks. knowledge st' = knowledge st @ ks) \<and> (\<exists>hs. heap st' = heap st @ hs) \<and>
     safes st' = safes st \<and> mines st' = mines st \<and>
     height st' = height st \<and> width st' = width st"

text \<open>
  The termination measure of the inner loop: the entries not yet visited that would make it
  append, plus the entries not yet visited.
\<close>

definition trigger :: "sentence \<Rightarrow> sentence list \<Rightarrow> sentence \<Rightarrow> bool" where
  "trigger A vals B \<longleftrightarrow> A \<noteq> B \<and> cells B \<subseteq> cells A \<and>
     Sentence (cells A - cells B) (count A - count B) \<notin> set vals"

definition steps_left :: "ref \<Rightarrow> nat \<Rightarrow> ai \<Rightarrow> nat" where
  "steps_left r j st =
     length (filter (trigger (heap st ! r) (kb_values st)) (drop j (kb_values st)))
     + (length (knowledge st) - j)"

text \<open>Line 231, named for the proofs.\<close>

definition drop_empty :: "ai \<Rightarrow> ai" where
  "drop_empty st =
     observe (st\<lparr>knowledge := filter (\<lambda>s. card (cells (heap st ! s)) > 0) (knowledge st)\<rparr>)"

definition inv :: "cell set \<Rightarrow> ref list \<Rightarrow> ai \<Rightarrow> bool" where
  "inv M rs st \<longleftrightarrow> sound M st \<and> (\<forall>r \<in> set rs. pending st r)"

text \<open>The cells of the board that hold a mine, and the 3x3 block around a cell.\<close>

definition mine_cells :: "minesweeper \<Rightarrow> cell set" where
  "mine_cells g = {(i, j). 0 \<le> i \<and> i < board_height g \<and> 0 \<le> j \<and> j < board_width g \<and>
     board g ! nat i ! nat j}"

definition block :: "cell \<Rightarrow> cell set" where
  "block c = {fst c - 1 .. fst c + 1} \<times> {snd c - 1 .. snd c + 1}"

section \<open>Subset resolution as the specification words it\<close>

text \<open>
  The specification's step (c) appends the difference sentence "if not already present and
  not empty". \<open>for_other_sentence_spec\<close> is the inner loop with that test; the functions
  after it are \<open>loop_body\<close>, \<open>for_sentence\<close>, \<open>add_knowledge\<close> and \<open>add_all\<close> with this inner
  loop in place of the source's, and are otherwise the same.
\<close>

partial_function (option) for_other_sentence_spec :: "ref \<Rightarrow> nat \<Rightarrow> ai \<Rightarrow> ai option" where
  "for_other_sentence_spec r j st =
     (if j < length (knowledge st) then
        (let sentence = heap st ! r;
             other_sentence = heap st ! (knowledge st ! j)
         in if \<not> sentence_eq sentence other_sentence
               \<and> cells other_sentence \<subseteq> cells sentence
            then
              (let subset_sentence = Sentence (cells sentence - cells other_sentence)
                     (count sentence - count other_sentence)
               in if \<not> in_knowledge subset_sentence st \<and> cells subset_sentence \<noteq> {}
                  then for_other_sentence_spec r (j + 1) (append_sentence subset_sentence st)
                  else for_other_sentence_spec r (j + 1) st)
            else for_other_sentence_spec r (j + 1) st)
      else Some st)"

definition loop_body_spec :: "(cell set \<Rightarrow> cell list) \<Rightarrow> ref \<Rightarrow> ai \<Rightarrow> ai option" where
  "loop_body_spec ord r st =
     (let sentence_safes = fst (known_safes (heap st ! r));
          sentence_mines = fst (known_mines (heap st ! r));
          st1 = fold mark_safe (ord sentence_safes) st;
          st2 = fold mark_mine (ord sentence_mines) st1;
          st3 = observe (st2\<lparr>knowledge :=
                  filter (\<lambda>s. card (cells (heap st2 ! s)) > 0) (knowledge st2)\<rparr>)
      in for_other_sentence_spec r 0 st3)"

fun for_sentence_spec :: "(cell set \<Rightarrow> cell list) \<Rightarrow> ref list \<Rightarrow> ai \<Rightarrow> ai option" where
  "for_sentence_spec ord [] st = Some st"
| "for_sentence_spec ord (r # rs) st =
     (case loop_body_spec ord r st of None \<Rightarrow> None | Some st' \<Rightarrow> for_sentence_spec ord rs st')"

definition add_knowledge_spec :: "(cell set \<Rightarrow> cell list) \<Rightarrow> cell \<Rightarrow> int \<Rightarrow> ai \<Rightarrow> ai option" where
  "add_knowledge_spec ord cell n st =
     (let st1 = st\<lparr>moves_made := insert cell (moves_made st)\<rparr>;
          st2 = (if cell \<notin> safes st1 then mark_safe cell st1 else st1);
          neighbours = neighbour_cells st2 cell;
          known_mines_in_neighbours = Set.filter (\<lambda>c. c \<in> mines st2) neighbours;
          neighbours' = neighbours - known_mines_in_neighbours;
          n' = n - int (card known_mines_in_neighbours);
          new_sentence = Sentence neighbours' n';
          st3 = (if \<not> in_knowledge new_sentence st2 \<and> cells new_sentence \<noteq> {}
                 then append_sentence new_sentence st2 else st2)
      in for_sentence_spec ord (knowledge st3) st3)"

fun add_all_spec :: "(cell set \<Rightarrow> cell list) \<Rightarrow> (cell \<times> int) list \<Rightarrow> ai \<Rightarrow> ai option" where
  "add_all_spec ord [] st = Some st"
| "add_all_spec ord ((cell, n) # obs) st =
     (case add_knowledge_spec ord cell n st of None \<Rightarrow> None
      | Some st' \<Rightarrow> add_all_spec ord obs st')"

text \<open>
  The knowledge base grows only by \<open>append\<close>, one sentence at a time, and \<open>history\<close> holds
  it after every step. A step from the snapshot \<open>before\<close> to the snapshot \<open>after\<close> that
  made it longer must have appended one sentence that was not present and is not empty.
\<close>

definition grown_by_new_nonempty :: "sentence list \<Rightarrow> sentence list \<Rightarrow> bool" where
  "grown_by_new_nonempty before after \<longleftrightarrow>
     (length before < length after \<longrightarrow>
        (\<exists>s. after = before @ [s] \<and> s \<notin> set before \<and> cells s \<noteq> {}))"

definition appends_checked :: "ai \<Rightarrow> bool" where
  "appends_checked st \<longleftrightarrow> last ([] # history st) = kb_values st \<and>
     (\<forall>k < length (history st). grown_by_new_nonempty (([] # history st) ! k) (history st ! k))"

section \<open>Sentence queries and marks\<close>

text \<open>
  C4. \<open>known_mines\<close> returns the sentence's cell set when the count equals the number of
  cells and the empty set otherwise, and it leaves the sentence as it was.
\<close>

theorem known_mines_spec:
  "(count s = int (card (cells s)) \<longrightarrow> fst (known_mines s) = cells s) \<and>
   (count s \<noteq> int (card (cells s)) \<longrightarrow> fst (known_mines s) = {}) \<and>
   snd (known_mines s) = s"
  by (simp add: known_mines_def)

theorem known_mines_spec_witness:
  "count (Sentence {(0, 0), (0, 1)} 2) = int (card (cells (Sentence {(0, 0), (0, 1)} 2))) \<and>
   fst (known_mines (Sentence {(0, 0), (0, 1)} 2)) = {(0, 0), (0, 1)} \<and>
   count (Sentence {(0, 0), (0, 1)} 1) \<noteq> int (card (cells (Sentence {(0, 0), (0, 1)} 1))) \<and>
   fst (known_mines (Sentence {(0, 0), (0, 1)} 1)) = {} \<and>
   snd (known_mines (Sentence {(0, 0), (0, 1)} 1)) = Sentence {(0, 0), (0, 1)} 1"
  using known_mines_spec [of "Sentence {(0, 0), (0, 1)} 2"]
    known_mines_spec [of "Sentence {(0, 0), (0, 1)} 1"]
  by (simp add: Sentence_def)

text \<open>
  C5. \<open>known_safes\<close> returns the sentence's cell set when the count is zero and the empty
  set otherwise, and it leaves the sentence as it was.
\<close>

theorem known_safes_spec:
  "(count s = 0 \<longrightarrow> fst (known_safes s) = cells s) \<and>
   (count s \<noteq> 0 \<longrightarrow> fst (known_safes s) = {}) \<and>
   snd (known_safes s) = s"
  by (simp add: known_safes_def)

theorem known_safes_spec_witness:
  "count (Sentence {(1, 1), (1, 2)} 0) = 0 \<and>
   fst (known_safes (Sentence {(1, 1), (1, 2)} 0)) = {(1, 1), (1, 2)} \<and>
   count (Sentence {(1, 1), (1, 2)} 1) \<noteq> 0 \<and>
   fst (known_safes (Sentence {(1, 1), (1, 2)} 1)) = {} \<and>
   snd (known_safes (Sentence {(1, 1), (1, 2)} 1)) = Sentence {(1, 1), (1, 2)} 1"
  using known_safes_spec [of "Sentence {(1, 1), (1, 2)} 0"]
    known_safes_spec [of "Sentence {(1, 1), (1, 2)} 1"]
  by (simp add: Sentence_def)

text \<open>
  C6. \<open>Sentence.mark_mine\<close> removes a member cell and decrements the count, and changes
  nothing for a cell that is not a member; \<open>Sentence.mark_safe\<close> removes a member cell,
  keeps the count, and changes nothing otherwise. Both are idempotent.
\<close>

theorem sentence_marks_spec:
  "(c \<in> cells s \<longrightarrow>
      sentence_mark_mine c s = \<lparr>cells = cells s - {c}, count = count s - 1\<rparr> \<and>
      sentence_mark_safe c s = \<lparr>cells = cells s - {c}, count = count s\<rparr>) \<and>
   (c \<notin> cells s \<longrightarrow> sentence_mark_mine c s = s \<and> sentence_mark_safe c s = s) \<and>
   sentence_mark_mine c (sentence_mark_mine c s) = sentence_mark_mine c s \<and>
   sentence_mark_safe c (sentence_mark_safe c s) = sentence_mark_safe c s"
  by (simp add: sentence_mark_mine_def sentence_mark_safe_def)

theorem sentence_marks_spec_witness:
  "(0, 1) \<in> cells (Sentence {(0, 0), (0, 1)} 1) \<and>
   sentence_mark_mine (0, 1) (Sentence {(0, 0), (0, 1)} 1) = Sentence {(0, 0)} 0 \<and>
   sentence_mark_safe (0, 1) (Sentence {(0, 0), (0, 1)} 1) = Sentence {(0, 0)} 1 \<and>
   (2, 2) \<notin> cells (Sentence {(0, 0), (0, 1)} 1) \<and>
   sentence_mark_mine (2, 2) (Sentence {(0, 0), (0, 1)} 1) = Sentence {(0, 0), (0, 1)} 1 \<and>
   sentence_mark_safe (2, 2) (Sentence {(0, 0), (0, 1)} 1) = Sentence {(0, 0), (0, 1)} 1"
  using sentence_marks_spec [of "(0, 1)" "Sentence {(0, 0), (0, 1)} 1"]
    sentence_marks_spec [of "(2, 2)" "Sentence {(0, 0), (0, 1)} 1"]
  by (auto simp: Sentence_def)

section \<open>Agent-level marks\<close>

text \<open>
  C10. \<open>MinesweeperAI.mark_mine\<close> adds the cell to \<open>mines\<close> and leaves \<open>safes\<close> as it is;
  \<open>MinesweeperAI.mark_safe\<close> adds the cell to \<open>safes\<close> and leaves \<open>mines\<close> as it is;
  neither changes \<open>moves_made\<close>. So \<open>mark_safe(c)\<close> followed by \<open>mark_mine(c)\<close> leaves
  \<open>c\<close> in both certainty sets.
\<close>

theorem agent_marks_not_disjoint:
  "mines (mark_mine c st) = insert c (mines st) \<and> safes (mark_mine c st) = safes st \<and>
   safes (mark_safe c st) = insert c (safes st) \<and> mines (mark_safe c st) = mines st \<and>
   moves_made (mark_mine c st) = moves_made st \<and> moves_made (mark_safe c st) = moves_made st \<and>
   c \<in> safes (mark_mine c (mark_safe c st)) \<inter> mines (mark_mine c (mark_safe c st))"
  by (simp add: mark_mine_def mark_safe_def observe_def)

section \<open>Safe moves\<close>

lemma find_None_conv: "find P xs = None \<longleftrightarrow> (\<forall>x \<in> set xs. \<not> P x)"
  by (induction xs) auto

lemma find_SomeD: "find P xs = Some x \<Longrightarrow> x \<in> set xs \<and> P x"
  by (induction xs) (auto split: if_splits)

text \<open>
  C8. \<open>make_safe_move\<close> returns a cell of \<open>safes\<close> that is not in \<open>moves_made\<close> when there
  is one and \<open>None\<close> when there is none, whatever the iteration order of the set, and the
  agent's state after the call is the state before it.
\<close>

theorem make_safe_move_spec:
  assumes "iteration_order ord" and "finite (safes st)"
  shows "snd (make_safe_move ord st) = st \<and>
    (if safes st - moves_made st = {} then fst (make_safe_move ord st) = None
     else \<exists>c. fst (make_safe_move ord st) = Some c \<and> c \<in> safes st \<and> c \<notin> moves_made st)"
proof -
  from assms have enum: "set (ord (safes st)) = safes st"
    by (simp add: iteration_order_def)
  let ?res = "find (\<lambda>safe_cell. safe_cell \<notin> moves_made st) (ord (safes st))"
  show ?thesis
  proof (cases ?res)
    case None
    then have "\<forall>x \<in> safes st. x \<in> moves_made st"
      using enum by (auto simp: find_None_conv)
    with None show ?thesis
      by (auto simp: make_safe_move_def)
  next
    case (Some c)
    from find_SomeD [OF Some] enum have "c \<in> safes st" "c \<notin> moves_made st"
      by auto
    with Some show ?thesis
      by (auto simp: make_safe_move_def)
  qed
qed

lemma sorted_list_of_set_order: "iteration_order sorted_list_of_set"
  by (simp add: iteration_order_def)

theorem make_safe_move_spec_witness:
  "iteration_order sorted_list_of_set \<and>
   finite (safes (new_ai 3 3\<lparr>safes := {(0, 0), (0, 1)}, moves_made := {(0, 0)}\<rparr>)) \<and>
   make_safe_move sorted_list_of_set (new_ai 3 3\<lparr>safes := {(0, 0), (0, 1)}, moves_made := {(0, 0)}\<rparr>)
     = (Some (0, 1), new_ai 3 3\<lparr>safes := {(0, 0), (0, 1)}, moves_made := {(0, 0)}\<rparr>) \<and>
   make_safe_move sorted_list_of_set (new_ai 3 3\<lparr>safes := {(0, 0)}, moves_made := {(0, 0)}\<rparr>)
     = (None, new_ai 3 3\<lparr>safes := {(0, 0)}, moves_made := {(0, 0)}\<rparr>)"
proof -
  have o: "iteration_order sorted_list_of_set"
    by (rule sorted_list_of_set_order)
  have f1: "finite (safes (new_ai 3 3\<lparr>safes := {(0, 0), (0, 1)}, moves_made := {(0, 0)}\<rparr>))"
    by simp
  have f2: "finite (safes (new_ai 3 3\<lparr>safes := {(0, 0)}, moves_made := {(0, 0)}\<rparr>))"
    by simp
  show ?thesis
    using o make_safe_move_spec [OF o f1] make_safe_move_spec [OF o f2]
    by (auto simp: prod_eq_iff new_ai_def)
qed

section \<open>What a random move returns\<close>

lemma set_grid_cells: "set (grid_cells st) = {c. in_bounds st c}"
  by (auto simp: grid_cells_def in_bounds_def)

lemma random_cell_drawn:
  assumes "0 < height st" and "0 < width st"
  shows "random_cell st (sdrop (2 * k) rng) = Inr (drawn st rng k, sdrop (2 * (k + 1)) rng)"
proof -
  have "stl (stl (sdrop (2 * k) rng)) = sdrop (2 * (k + 1)) rng"
    by (simp add: sdrop_simps)
  moreover have "shd (stl (sdrop (2 * k) rng)) = rng !! (2 * k + 1)"
    by (simp add: sdrop_simps)
  ultimately show ?thesis
    using assms by (simp add: random_cell_def randrange_def drawn_def sdrop_simps)
qed

lemma drawn_in_bounds:
  "0 < height st \<Longrightarrow> 0 < width st \<Longrightarrow> in_bounds st (drawn st rng k)"
  by (simp add: in_bounds_def drawn_def)

lemma sample_loop_draws:
  assumes "0 < height st" and "0 < width st"
  shows "k < 10 \<Longrightarrow> (\<forall>i<k. \<not> eligible st (drawn st rng i)) \<Longrightarrow>
    \<exists>m\<le>10. sample_loop st (drawn st rng k) (int k) (sdrop (2 * (k + 1)) rng)
        = Inr (drawn st rng m, int m, sdrop (2 * (m + 1)) rng) \<and>
      (\<forall>i<m. \<not> eligible st (drawn st rng i)) \<and>
      (m < 10 \<longrightarrow> eligible st (drawn st rng m))"
proof (induction "10 - k" arbitrary: k rule: less_induct)
  case less
  show ?case
  proof (cases "eligible st (drawn st rng k)")
    case True
    then have "sample_loop st (drawn st rng k) (int k) (sdrop (2 * (k + 1)) rng)
      = Inr (drawn st rng k, int k, sdrop (2 * (k + 1)) rng)"
      by (simp add: eligible_def)
    with True less.prems show ?thesis
      by (intro exI [of _ k]) simp
  next
    case False
    with less.prems(2) have upto: "\<forall>i<Suc k. \<not> eligible st (drawn st rng i)"
      by (simp add: less_Suc_eq)
    from False have step: "sample_loop st (drawn st rng k) (int k) (sdrop (2 * (k + 1)) rng)
      = (if int k + 1 \<ge> 10 then Inr (drawn st rng (Suc k), int k + 1, sdrop (2 * (Suc k + 1)) rng)
         else sample_loop st (drawn st rng (Suc k)) (int k + 1) (sdrop (2 * (Suc k + 1)) rng))"
      using random_cell_drawn [OF assms, of "k + 1" rng]
      by (subst sample_loop.simps) (auto simp: eligible_def)
    show ?thesis
    proof (cases "Suc k = 10")
      case True
      with step upto show ?thesis
        by (intro exI [of _ "Suc k"]) (simp del: sample_loop.simps)
    next
      case False
      with less.prems(1) have lt: "Suc k < 10" by simp
      then have "10 - Suc k < 10 - k" by simp
      from less.hyps [OF this lt upto] obtain m where "m \<le> 10"
        "sample_loop st (drawn st rng (Suc k)) (int (Suc k)) (sdrop (2 * (Suc k + 1)) rng)
          = Inr (drawn st rng m, int m, sdrop (2 * (m + 1)) rng)"
        "\<forall>i<m. \<not> eligible st (drawn st rng i)" "m < 10 \<longrightarrow> eligible st (drawn st rng m)"
        by blast
      with step lt show ?thesis
        by (intro exI [of _ m]) (simp add: add.commute del: sample_loop.simps)
    qed
  qed
qed

lemma find_first_sorted:
  "sorted_wrt (<) (xs :: cell list) \<Longrightarrow> find P xs = Some c \<Longrightarrow> d \<in> set xs \<Longrightarrow> d < c \<Longrightarrow> \<not> P d"
  by (induction xs) (auto split: if_splits dest: less_asym)

lemma sorted_rows:
  "sorted_wrt (<) xs \<Longrightarrow> sorted_wrt (<) ys \<Longrightarrow>
     sorted_wrt (<) (concat (map (\<lambda>r. map (Pair r) ys) (xs :: int list)) :: cell list)"
  by (induction xs) (auto simp: sorted_wrt_append sorted_wrt_map)

lemma sorted_grid_cells: "sorted_wrt (<) (grid_cells st)"
  using sorted_rows [of "[0 .. height st - 1]" "[0 .. width st - 1]"]
  by (simp add: grid_cells_def)

text \<open>
  C7, amended. On a grid with at least one row and one column, \<open>make_random_move\<close>
  returns for every random source: \<open>None\<close> when every cell of the grid is in \<open>mines\<close> or
  \<open>moves_made\<close>, and otherwise a cell of the grid that is in neither. It gets there by
  bounded sampling followed by a scan: \<open>k\<close> counts the redraws, the cells drawn before the
  \<open>k\<close>-th are not eligible, for \<open>k < 10\<close> the result is the \<open>k\<close>-th cell drawn, and for
  \<open>k = 10\<close> it is the first eligible cell of the grid in row-major order (every cell of the
  grid before it, in the order by row and then by column, is not eligible).
\<close>

theorem make_random_move_spec:
  assumes "0 < height st" and "0 < width st"
  shows "\<exists>res k. k \<le> 10 \<and> make_random_move st rng = Inr (res, sdrop (2 * (k + 1)) rng) \<and>
    (if \<forall>c. in_bounds st c \<longrightarrow> c \<in> mines st \<union> moves_made st then res = None
     else \<exists>c. res = Some c \<and> in_bounds st c \<and> c \<notin> mines st \<and> c \<notin> moves_made st) \<and>
    (\<forall>i<k. \<not> eligible st (drawn st rng i)) \<and>
    (k < 10 \<longrightarrow> res = Some (drawn st rng k)) \<and>
    (k = 10 \<longrightarrow> res = find (eligible st) (grid_cells st) \<and>
       (\<forall>c d. res = Some c \<and> in_bounds st d \<and> d < c \<longrightarrow> \<not> eligible st d))"
proof -
  let ?scan = "find (eligible st) (grid_cells st)"
  have rc: "random_cell st rng = Inr (drawn st rng 0, sdrop (2 * (0 + 1)) rng)"
    using random_cell_drawn [OF assms, of 0 rng] by simp
  from sample_loop_draws [OF assms, of 0 rng] obtain k where k: "k \<le> 10"
    and sl: "sample_loop st (drawn st rng 0) 0 (sdrop (2 * (0 + 1)) rng)
      = Inr (drawn st rng k, int k, sdrop (2 * (k + 1)) rng)"
    and before: "\<forall>i<k. \<not> eligible st (drawn st rng i)"
    and el: "k < 10 \<longrightarrow> eligible st (drawn st rng k)"
    by auto
  have scan_eq: "find (\<lambda>c. c \<notin> mines st \<and> c \<notin> moves_made st) (grid_cells st) = ?scan"
    by (simp add: eligible_def [abs_def])
  have res: "make_random_move st rng
    = Inr (if k < 10 then Some (drawn st rng k) else ?scan, sdrop (2 * (k + 1)) rng)"
    using rc sl by (simp add: make_random_move_def scan_eq del: sample_loop.simps)
  let ?res = "if k < 10 then Some (drawn st rng k) else ?scan"
  have ib: "in_bounds st (drawn st rng i)" for i
    by (rule drawn_in_bounds [OF assms])
  have first: "\<not> eligible st d" if "?scan = Some c" "in_bounds st d" "d < c" for c d
    using find_first_sorted [OF sorted_grid_cells that(1) _ that(3)] that(2)
    by (simp add: set_grid_cells)
  have outcome: "if \<forall>c. in_bounds st c \<longrightarrow> c \<in> mines st \<union> moves_made st then ?res = None
     else \<exists>c. ?res = Some c \<and> in_bounds st c \<and> c \<notin> mines st \<and> c \<notin> moves_made st"
  proof (cases "\<forall>c. in_bounds st c \<longrightarrow> c \<in> mines st \<union> moves_made st")
    case True
    with ib [of k] el have "\<not> k < 10"
      unfolding eligible_def by blast
    moreover from True have "?scan = None"
      by (auto simp: find_None_conv set_grid_cells eligible_def)
    ultimately show ?thesis using True by simp
  next
    case False
    then obtain d where d: "in_bounds st d" "eligible st d"
      by (auto simp: eligible_def)
    then have "?scan \<noteq> None"
      unfolding find_None_conv set_grid_cells by blast
    then obtain e where e: "?scan = Some e" by auto
    from find_SomeD [OF e] have "in_bounds st e" "e \<notin> mines st" "e \<notin> moves_made st"
      by (auto simp: set_grid_cells eligible_def)
    with False ib [of k] el e show ?thesis
      by (cases "k < 10") (auto simp: eligible_def)
  qed
  have "k = 10 \<longrightarrow> ?res = ?scan \<and>
      (\<forall>c d. ?res = Some c \<and> in_bounds st d \<and> d < c \<longrightarrow> \<not> eligible st d)"
    using first by auto
  with k res outcome before show ?thesis
    by (intro exI [of _ ?res] exI [of _ k]) simp
qed

theorem make_random_move_spec_witness:
  "0 < height (new_ai 2 2\<lparr>mines := {(0, 0)}, moves_made := {(0, 1)}\<rparr>) \<and>
   0 < width (new_ai 2 2\<lparr>mines := {(0, 0)}, moves_made := {(0, 1)}\<rparr>) \<and>
   (\<exists>c rng'. make_random_move (new_ai 2 2\<lparr>mines := {(0, 0)}, moves_made := {(0, 1)}\<rparr>) (sconst 0)
       = Inr (Some c, rng') \<and>
      in_bounds (new_ai 2 2\<lparr>mines := {(0, 0)}, moves_made := {(0, 1)}\<rparr>) c \<and>
      c \<notin> mines (new_ai 2 2\<lparr>mines := {(0, 0)}, moves_made := {(0, 1)}\<rparr>) \<and>
      c \<notin> moves_made (new_ai 2 2\<lparr>mines := {(0, 0)}, moves_made := {(0, 1)}\<rparr>))"
proof -
  let ?st = "new_ai 2 2\<lparr>mines := {(0, 0)}, moves_made := {(0, 1)}\<rparr>"
  have h: "0 < height ?st" and w: "0 < width ?st"
    by (simp_all add: new_ai_def)
  have "in_bounds ?st (1, 0) \<and> (1, 0) \<notin> mines ?st \<union> moves_made ?st"
    by (simp add: in_bounds_def new_ai_def)
  then have open_cell: "\<not> (\<forall>c. in_bounds ?st c \<longrightarrow> c \<in> mines ?st \<union> moves_made ?st)"
    by blast
  from make_random_move_spec [OF h w, of "sconst 0"] obtain res k
    where run: "make_random_move ?st (sconst 0) = Inr (res, sdrop (2 * (k + 1)) (sconst 0))"
      and res: "if \<forall>c. in_bounds ?st c \<longrightarrow> c \<in> mines ?st \<union> moves_made ?st then res = None
        else \<exists>c. res = Some c \<and> in_bounds ?st c \<and> c \<notin> mines ?st \<and> c \<notin> moves_made ?st"
    by blast
  from res open_cell
  have "\<exists>c. res = Some c \<and> in_bounds ?st c \<and> c \<notin> mines ?st \<and> c \<notin> moves_made ?st"
    by (simp only: if_False)
  with run h w show ?thesis
    by blast
qed

text \<open>
  C7 as stated also covers an agent whose grid has no cell. There \<open>random.randrange\<close>
  raises \<open>ValueError\<close>, and no value is returned.
\<close>

theorem make_random_move_empty_grid:
  "set (grid_cells (new_ai 0 0)) = {} \<and>
   make_random_move (new_ai 0 0) (sconst 0) = Inl ValueError"
  by (simp add: make_random_move_def random_cell_def randrange_def new_ai_def grid_cells_def)

section \<open>The knowledge base under a consistent environment\<close>

lemma sentence_eq_iff: "sentence_eq s t \<longleftrightarrow> s = t"
  by (auto simp: sentence_eq_def)

lemma in_knowledge_iff: "in_knowledge s st \<longleftrightarrow> s \<in> set (kb_values st)"
  by (auto simp: in_knowledge_def kb_values_def sentence_eq_iff)

lemma fold_update_length:
  "length (fold (\<lambda>r h. h[r := f (h ! r)]) ks h) = length h"
  by (induction ks arbitrary: h) auto

lemma fold_update_other:
  "r \<notin> set ks \<Longrightarrow> fold (\<lambda>r h. h[r := f (h ! r)]) ks h ! r = h ! r"
  by (induction ks arbitrary: h) auto

lemma fold_update_member:
  "distinct ks \<Longrightarrow> r \<in> set ks \<Longrightarrow> r < length h \<Longrightarrow>
     fold (\<lambda>r h. h[r := f (h ! r)]) ks h ! r = f (h ! r)"
proof (induction ks arbitrary: h)
  case Nil
  then show ?case by simp
next
  case (Cons k ks)
  show ?case
  proof (cases "r = k")
    case True
    with Cons.prems have "r \<notin> set ks" by simp
    with True Cons.prems show ?thesis
      by (simp add: fold_update_other)
  next
    case False
    with Cons show ?thesis by simp
  qed
qed

lemma kb_values_mark_safe:
  "valid_refs st \<Longrightarrow> kb_values (mark_safe c st) = map (sentence_mark_safe c) (kb_values st)"
  by (simp add: kb_values_def mark_safe_def observe_def valid_refs_def fold_update_member)

lemma kb_values_mark_mine:
  "valid_refs st \<Longrightarrow> kb_values (mark_mine c st) = map (sentence_mark_mine c) (kb_values st)"
  by (simp add: kb_values_def mark_mine_def observe_def valid_refs_def fold_update_member)

lemma valid_refs_mark_safe: "valid_refs st \<Longrightarrow> valid_refs (mark_safe c st)"
  by (simp add: valid_refs_def mark_safe_def observe_def fold_update_length)

lemma valid_refs_mark_mine: "valid_refs st \<Longrightarrow> valid_refs (mark_mine c st)"
  by (simp add: valid_refs_def mark_mine_def observe_def fold_update_length)

lemma kb_values_append:
  "valid_refs st \<Longrightarrow> kb_values (append_sentence s st) = kb_values st @ [s]"
  by (simp add: kb_values_def append_sentence_def observe_def valid_refs_def nth_append)

lemma valid_refs_append: "valid_refs st \<Longrightarrow> valid_refs (append_sentence s st)"
  by (auto simp: valid_refs_def append_sentence_def observe_def less_Suc_eq)

lemma true_sentence_in_range: "true_sentence M s \<Longrightarrow> count_in_range s"
  by (simp add: true_sentence_def count_in_range_def card_mono)

lemma true_sentence_mark_safe:
  "true_sentence M s \<Longrightarrow> c \<notin> M \<Longrightarrow> true_sentence M (sentence_mark_safe c s)"
proof -
  assume "c \<notin> M"
  then have "(cells s - {c}) \<inter> M = cells s \<inter> M" by auto
  moreover assume "true_sentence M s"
  ultimately show ?thesis
    by (simp add: true_sentence_def sentence_mark_safe_def)
qed

lemma true_sentence_mark_mine:
  assumes "true_sentence M s" and "c \<in> M"
  shows "true_sentence M (sentence_mark_mine c s)"
proof (cases "c \<in> cells s")
  case False
  with assms show ?thesis by (simp add: sentence_mark_mine_def)
next
  case True
  from assms(2) have eq: "(cells s - {c}) \<inter> M = (cells s \<inter> M) - {c}" by auto
  from True assms have "c \<in> cells s \<inter> M" "finite (cells s \<inter> M)"
    by (simp_all add: true_sentence_def)
  then have "card ((cells s \<inter> M) - {c}) = card (cells s \<inter> M) - 1" "card (cells s \<inter> M) > 0"
    by (auto simp: card_gt_0_iff)
  with True assms eq show ?thesis
    by (simp add: true_sentence_def sentence_mark_mine_def of_nat_diff)
qed

lemma cells_mark_safe: "cells (sentence_mark_safe c s) = cells s - {c}"
  by (auto simp: sentence_mark_safe_def)

lemma cells_mark_mine: "cells (sentence_mark_mine c s) = cells s - {c}"
  by (auto simp: sentence_mark_mine_def)

lemma mark_safe_fields:
  "safes (mark_safe c st) = insert c (safes st)" "mines (mark_safe c st) = mines st"
  "knowledge (mark_safe c st) = knowledge st" "height (mark_safe c st) = height st"
  "width (mark_safe c st) = width st" "moves_made (mark_safe c st) = moves_made st"
  "length (heap (mark_safe c st)) = length (heap st)"
  "history (mark_safe c st) = history st @ [kb_values (mark_safe c st)]"
  by (simp_all add: mark_safe_def observe_def fold_update_length kb_values_def)

lemma mark_mine_fields:
  "mines (mark_mine c st) = insert c (mines st)" "safes (mark_mine c st) = safes st"
  "knowledge (mark_mine c st) = knowledge st" "height (mark_mine c st) = height st"
  "width (mark_mine c st) = width st" "moves_made (mark_mine c st) = moves_made st"
  "length (heap (mark_mine c st)) = length (heap st)"
  "history (mark_mine c st) = history st @ [kb_values (mark_mine c st)]"
  by (simp_all add: mark_mine_def observe_def fold_update_length kb_values_def)

lemma sound_mark_safe:
  assumes "sound M st" and "c \<notin> M"
  shows "sound M (mark_safe c st)"
proof -
  from assms(1) have v: "valid_refs st" by (simp add: sound_def)
  have kb: "kb_values (mark_safe c st) = map (sentence_mark_safe c) (kb_values st)"
    by (rule kb_values_mark_safe [OF v])
  have t: "\<forall>s \<in> set (kb_values (mark_safe c st)). true_sentence M s"
    using assms by (auto simp: kb sound_def true_sentence_mark_safe)
  have d: "\<forall>s \<in> set (kb_values (mark_safe c st)).
      cells s \<inter> (safes (mark_safe c st) \<union> mines (mark_safe c st)) = {}"
    using assms(1) by (auto simp: kb sound_def mark_safe_fields cells_mark_safe)
  from t have "\<forall>s \<in> set (kb_values (mark_safe c st)). count_in_range s"
    by (blast intro: true_sentence_in_range)
  with assms t d valid_refs_mark_safe [OF v] show ?thesis
    by (simp add: sound_def mark_safe_fields)
qed

lemma sound_mark_mine:
  assumes "sound M st" and "c \<in> M"
  shows "sound M (mark_mine c st)"
proof -
  from assms(1) have v: "valid_refs st" by (simp add: sound_def)
  have kb: "kb_values (mark_mine c st) = map (sentence_mark_mine c) (kb_values st)"
    by (rule kb_values_mark_mine [OF v])
  have t: "\<forall>s \<in> set (kb_values (mark_mine c st)). true_sentence M s"
    using assms by (auto simp: kb sound_def true_sentence_mark_mine)
  have d: "\<forall>s \<in> set (kb_values (mark_mine c st)).
      cells s \<inter> (safes (mark_mine c st) \<union> mines (mark_mine c st)) = {}"
    using assms(1) by (auto simp: kb sound_def mark_mine_fields cells_mark_mine)
  from t have "\<forall>s \<in> set (kb_values (mark_mine c st)). count_in_range s"
    by (blast intro: true_sentence_in_range)
  with assms t d valid_refs_mark_mine [OF v] show ?thesis
    by (simp add: sound_def mark_mine_fields)
qed

lemma grows_refl: "grows st st"
  by (simp add: grows_def)

lemma grows_trans: "grows a b \<Longrightarrow> grows b c \<Longrightarrow> grows a c"
  by (auto simp: grows_def)

lemma grows_append: "grows st (append_sentence s st)"
  by (simp add: grows_def append_sentence_def observe_def)

lemma grows_pending: "grows st st' \<Longrightarrow> pending st r \<Longrightarrow> pending st' r"
  by (auto simp: grows_def pending_def nth_append)

lemma length_filter_mono:
  "(\<And>x. x \<in> set xs \<Longrightarrow> P x \<Longrightarrow> Q x) \<Longrightarrow> length (filter P xs) \<le> length (filter Q xs)"
  by (induction xs) auto

lemma steps_left_next:
  assumes "j < length (knowledge st)"
  shows "steps_left r (Suc j) st < steps_left r j st"
proof -
  from assms have "j < length (kb_values st)" by (simp add: kb_values_def)
  then have "drop j (kb_values st) = kb_values st ! j # drop (Suc j) (kb_values st)"
    by (simp add: Cons_nth_drop_Suc)
  with assms show ?thesis
    by (auto simp: steps_left_def)
qed

lemma true_sentence_difference:
  assumes "true_sentence M A" and "true_sentence M B" and "cells B \<subseteq> cells A"
  shows "true_sentence M (Sentence (cells A - cells B) (count A - count B))"
proof -
  have eq: "(cells A - cells B) \<inter> M = (cells A \<inter> M) - (cells B \<inter> M)" by auto
  from assms have sub: "cells B \<inter> M \<subseteq> cells A \<inter> M" and fin: "finite (cells B \<inter> M)" "finite (cells A)"
    by (auto simp: true_sentence_def)
  from fin(2) have "card (cells B \<inter> M) \<le> card (cells A \<inter> M)"
    using sub by (simp add: card_mono)
  with assms fin sub show ?thesis
    by (simp add: true_sentence_def Sentence_def eq card_Diff_subset of_nat_diff)
qed

lemma sound_append:
  assumes "sound M st" and "true_sentence M s" and "cells s \<inter> (safes st \<union> mines st) = {}"
  shows "sound M (append_sentence s st)"
proof -
  from assms(1) have v: "valid_refs st" by (simp add: sound_def)
  have kb: "kb_values (append_sentence s st) = kb_values st @ [s]"
    by (rule kb_values_append [OF v])
  have f: "safes (append_sentence s st) = safes st" "mines (append_sentence s st) = mines st"
    "history (append_sentence s st) = history st @ [kb_values (append_sentence s st)]"
    by (simp_all add: append_sentence_def observe_def kb_values_def)
  have "\<forall>x \<in> set (kb_values st @ [s]). count_in_range x"
    using assms by (auto simp: sound_def intro: true_sentence_in_range)
  with assms valid_refs_append [OF v] show ?thesis
    by (auto simp: sound_def kb f)
qed

lemma for_other_sentence_sound:
  assumes "sound M st" and "r < length (heap st)" and "true_sentence M (heap st ! r)"
    and "cells (heap st ! r) \<inter> (safes st \<union> mines st) = {}"
  shows "\<exists>st'. for_other_sentence r j st = Some st' \<and> sound M st' \<and> grows st st'"
  using assms
proof (induction "steps_left r j st" arbitrary: j st rule: less_induct)
  case less
  let ?A = "heap st ! r"
  let ?B = "heap st ! (knowledge st ! j)"
  let ?C = "Sentence (cells ?A - cells ?B) (count ?A - count ?B)"
  show ?case
  proof (cases "j < length (knowledge st)")
    case False
    then have "for_other_sentence r j st = Some st"
      by (simp add: for_other_sentence.simps)
    with less.prems show ?thesis
      by (simp add: grows_refl)
  next
    case True
    then have B: "?B = kb_values st ! j" "?B \<in> set (kb_values st)"
      by (simp_all add: kb_values_def)
    show ?thesis
    proof (cases "?A \<noteq> ?B \<and> cells ?B \<subseteq> cells ?A \<and> \<not> in_knowledge ?C st")
      case False
      then have "for_other_sentence r j st = for_other_sentence r (Suc j) st"
        using True by (subst for_other_sentence.simps) (auto simp: sentence_eq_iff Let_def)
      moreover from less.hyps [OF steps_left_next [OF True] less.prems]
      obtain st' where "for_other_sentence r (Suc j) st = Some st'" "sound M st'" "grows st st'"
        by blast
      ultimately show ?thesis by simp
    next
      case trig: True
      let ?nxt = "append_sentence ?C st"
      from trig have run: "for_other_sentence r j st = for_other_sentence r (Suc j) ?nxt"
        using True by (subst for_other_sentence.simps) (simp add: sentence_eq_iff Let_def)
      from less.prems(1) have v: "valid_refs st" by (simp add: sound_def)
      from less.prems(1) B have tB: "true_sentence M ?B"
        by (simp add: sound_def)
      have tC: "true_sentence M ?C"
        using less.prems(3) tB trig by (simp add: true_sentence_difference)
      have dC: "cells ?C \<inter> (safes st \<union> mines st) = {}"
        using less.prems(4) by (auto simp: Sentence_def)
      have s2: "sound M ?nxt"
        by (rule sound_append [OF less.prems(1) tC dC])
      have g2: "grows st ?nxt" by (rule grows_append)
      have A2: "heap ?nxt ! r = ?A"
        using less.prems(2) by (simp add: append_sentence_def observe_def nth_append)
      have r2: "r < length (heap ?nxt)"
        using less.prems(2) by (simp add: append_sentence_def observe_def)
      have sm2: "safes ?nxt = safes st" "mines ?nxt = mines st"
        by (simp_all add: append_sentence_def observe_def)
      have kb2: "kb_values ?nxt = kb_values st @ [?C]"
        by (rule kb_values_append [OF v])
      have len2: "length (knowledge ?nxt) = Suc (length (knowledge st))"
        by (simp add: append_sentence_def observe_def)
      have candB: "Sentence (cells ?A - cells ?C) (count ?A - count ?C) = ?B"
      proof -
        from trig have "cells ?A - (cells ?A - cells ?B) = cells ?B" by auto
        then show ?thesis by (simp add: Sentence_def)
      qed
      have notrig: "\<not> trigger ?A (kb_values st @ [?C]) ?C"
        using B(2) by (simp add: trigger_def candB)
      have jlen: "j < length (kb_values st)"
        using True by (simp add: kb_values_def)
      then have dropj: "drop j (kb_values st) = ?B # drop (Suc j) (kb_values st)"
        by (simp add: Cons_nth_drop_Suc B(1))
      have trigB: "trigger ?A (kb_values st) ?B"
        using trig by (simp add: trigger_def in_knowledge_iff)
      have "length (filter (trigger ?A (kb_values st @ [?C])) (drop (Suc j) (kb_values st)))
          \<le> length (filter (trigger ?A (kb_values st)) (drop (Suc j) (kb_values st)))"
        by (rule length_filter_mono) (simp add: trigger_def)
      then have dec: "steps_left r (Suc j) ?nxt < steps_left r j st"
        using jlen True notrig trigB
        by (simp add: steps_left_def A2 kb2 len2 dropj)
      from less.hyps [OF dec s2 r2] tC less.prems(3,4) A2 sm2
      obtain st' where "for_other_sentence r (Suc j) ?nxt = Some st'" "sound M st'" "grows ?nxt st'"
        by auto
      with run g2 show ?thesis
        by (auto intro: grows_trans)
    qed
  qed
qed

lemma loop_body_alt:
  "loop_body ord r st = for_other_sentence r 0
     (drop_empty (fold mark_mine (ord (fst (known_mines (heap st ! r))))
        (fold mark_safe (ord (fst (known_safes (heap st ! r)))) st)))"
  by (simp add: loop_body_def drop_empty_def Let_def)

lemma pending_mark_safe:
  assumes "pending st r"
  shows "pending (mark_safe c st) r"
proof (cases "r \<in> set (knowledge st)")
  case True
  with assms show ?thesis
    by (simp add: pending_def mark_safe_def observe_def fold_update_length)
next
  case False
  with assms show ?thesis
    by (simp add: pending_def mark_safe_def observe_def fold_update_length fold_update_other)
qed

lemma pending_mark_mine:
  assumes "pending st r"
  shows "pending (mark_mine c st) r"
proof (cases "r \<in> set (knowledge st)")
  case True
  with assms show ?thesis
    by (simp add: pending_def mark_mine_def observe_def fold_update_length)
next
  case False
  with assms show ?thesis
    by (simp add: pending_def mark_mine_def observe_def fold_update_length fold_update_other)
qed

lemma inv_fold_mark_safe:
  "inv M rs st \<Longrightarrow> set xs \<inter> M = {} \<Longrightarrow> inv M rs (fold mark_safe xs st)"
proof (induction xs arbitrary: st)
  case Nil
  then show ?case by simp
next
  case (Cons x xs)
  from Cons.prems have "inv M rs (mark_safe x st)"
    by (simp add: inv_def sound_mark_safe pending_mark_safe)
  with Cons show ?case by simp
qed

lemma inv_fold_mark_mine:
  "inv M rs st \<Longrightarrow> set xs \<subseteq> M \<Longrightarrow> inv M rs (fold mark_mine xs st)"
proof (induction xs arbitrary: st)
  case Nil
  then show ?case by simp
next
  case (Cons x xs)
  from Cons.prems have "inv M rs (mark_mine x st)"
    by (simp add: inv_def sound_mark_mine pending_mark_mine)
  with Cons show ?case by simp
qed

lemma grid_fold_mark_safe:
  "height (fold mark_safe xs st) = height st \<and> width (fold mark_safe xs st) = width st"
  by (induction xs arbitrary: st) (simp_all add: mark_safe_fields)

lemma grid_fold_mark_mine:
  "height (fold mark_mine xs st) = height st \<and> width (fold mark_mine xs st) = width st"
  by (induction xs arbitrary: st) (simp_all add: mark_mine_fields)

lemma empty_true_sentence:
  assumes "true_sentence M s" and "card (cells s) = 0"
  shows "s = \<lparr>cells = {}, count = 0\<rparr>"
proof -
  from assms have "cells s = {}" by (simp add: true_sentence_def)
  with assms(1) have "count s = 0" by (simp add: true_sentence_def)
  with \<open>cells s = {}\<close> show ?thesis by simp
qed

lemma inv_drop_empty:
  assumes "inv M rs st"
  shows "inv M rs (drop_empty st)"
proof -
  let ?keep = "\<lambda>s. card (cells (heap st ! s)) > 0"
  from assms have s: "sound M st" by (simp add: inv_def)
  have f: "knowledge (drop_empty st) = filter ?keep (knowledge st)"
    "heap (drop_empty st) = heap st" "safes (drop_empty st) = safes st"
    "mines (drop_empty st) = mines st"
    "history (drop_empty st) = history st @ [kb_values (drop_empty st)]"
    by (simp_all add: drop_empty_def observe_def kb_values_def)
  have sub: "set (kb_values (drop_empty st)) \<subseteq> set (kb_values st)"
    by (auto simp: kb_values_def f)
  have v: "valid_refs (drop_empty st)"
    using s by (simp add: sound_def valid_refs_def f)
  have "\<forall>x \<in> set (kb_values (drop_empty st)). count_in_range x"
    using s sub by (auto simp: sound_def intro: true_sentence_in_range)
  with s sub v have "sound M (drop_empty st)"
    by (auto simp: sound_def f)
  moreover have "pending (drop_empty st) r" if "r \<in> set rs" for r
  proof (cases "r \<in> set (knowledge st) \<and> \<not> ?keep r")
    case True
    with s have "true_sentence M (heap st ! r)"
      by (simp add: sound_def kb_values_def)
    with True have "heap st ! r = \<lparr>cells = {}, count = 0\<rparr>"
      by (simp add: empty_true_sentence)
    with assms that show ?thesis
      by (simp add: inv_def pending_def f)
  next
    case False
    with assms that show ?thesis
      by (auto simp: inv_def pending_def f)
  qed
  ultimately show ?thesis by (simp add: inv_def)
qed

lemma grid_drop_empty: "height (drop_empty st) = height st \<and> width (drop_empty st) = width st"
  by (simp add: drop_empty_def observe_def)

lemma pending_true_sentence:
  assumes "sound M st" and "pending st r"
  shows "true_sentence M (heap st ! r) \<and> cells (heap st ! r) \<inter> (safes st \<union> mines st) = {}"
proof (cases "r \<in> set (knowledge st)")
  case True
  then have "heap st ! r \<in> set (kb_values st)" by (simp add: kb_values_def)
  with assms(1) show ?thesis by (simp add: sound_def)
next
  case False
  with assms(2) have "heap st ! r = \<lparr>cells = {}, count = 0\<rparr>" by (simp add: pending_def)
  then show ?thesis by (simp add: true_sentence_def)
qed

lemma known_safes_safe:
  assumes "true_sentence M s"
  shows "finite (fst (known_safes s)) \<and> fst (known_safes s) \<inter> M = {}"
  using assms by (auto simp: known_safes_def true_sentence_def)

lemma known_mines_mines:
  assumes "true_sentence M s"
  shows "finite (fst (known_mines s)) \<and> fst (known_mines s) \<subseteq> M"
proof (cases "count s = int (card (cells s))")
  case False
  then show ?thesis by (simp add: known_mines_def)
next
  case True
  with assms have "card (cells s \<inter> M) = card (cells s)" "finite (cells s)"
    by (simp_all add: true_sentence_def)
  then have "cells s \<inter> M = cells s"
    by (intro card_subset_eq) auto
  with True assms show ?thesis
    by (auto simp: known_mines_def true_sentence_def)
qed

lemma loop_body_inv:
  assumes "inv M (r # rs) st" and "iteration_order ord"
  shows "\<exists>st'. loop_body ord r st = Some st' \<and> inv M rs st' \<and>
    height st' = height st \<and> width st' = width st"
proof -
  let ?safes = "fst (known_safes (heap st ! r))"
  let ?mines = "fst (known_mines (heap st ! r))"
  let ?a = "fold mark_safe (ord ?safes) st"
  let ?b = "fold mark_mine (ord ?mines) ?a"
  let ?c = "drop_empty ?b"
  from assms(1) have t: "true_sentence M (heap st ! r)"
    using pending_true_sentence [of M st r] by (simp add: inv_def)
  from known_safes_safe [OF t] assms(2) have "set (ord ?safes) \<inter> M = {}"
    by (simp add: iteration_order_def)
  with assms(1) have a: "inv M (r # rs) ?a"
    by (rule inv_fold_mark_safe)
  from known_mines_mines [OF t] assms(2) have "set (ord ?mines) \<subseteq> M"
    by (simp add: iteration_order_def)
  with a have "inv M (r # rs) ?b"
    by (rule inv_fold_mark_mine)
  then have c: "inv M (r # rs) ?c"
    by (rule inv_drop_empty)
  then have sc: "sound M ?c" and pc: "pending ?c r"
    by (simp_all add: inv_def)
  from pc have rc: "r < length (heap ?c)" by (simp add: pending_def)
  from pending_true_sentence [OF sc pc] for_other_sentence_sound [OF sc rc, of 0]
  obtain st' where run: "for_other_sentence r 0 ?c = Some st'" and s': "sound M st'"
    and g: "grows ?c st'"
    by blast
  from c g have "\<forall>x \<in> set rs. pending st' x"
    by (auto simp: inv_def intro: grows_pending)
  moreover from g have "height st' = height st \<and> width st' = width st"
    by (simp add: grows_def grid_drop_empty grid_fold_mark_mine grid_fold_mark_safe)
  ultimately show ?thesis
    using run s' by (simp add: loop_body_alt inv_def)
qed

lemma for_sentence_inv:
  assumes "iteration_order ord"
  shows "inv M rs st \<Longrightarrow> \<exists>st'. for_sentence ord rs st = Some st' \<and> sound M st' \<and>
    height st' = height st \<and> width st' = width st"
proof (induction rs arbitrary: st)
  case Nil
  then show ?case by (simp add: inv_def)
next
  case (Cons r rs)
  from loop_body_inv [OF Cons.prems assms] obtain st1
    where b: "loop_body ord r st = Some st1" "inv M rs st1"
      "height st1 = height st" "width st1 = width st"
    by blast
  from Cons.IH [OF b(2)] b show ?case by auto
qed

lemma finite_block: "finite (block c)"
  by (simp add: block_def)

lemma neighbour_cells_eq:
  "neighbour_cells st c =
     {(i, j). (i, j) \<in> block c \<and> 0 \<le> i \<and> i < height st \<and> 0 \<le> j \<and> j < width st} - safes st"
  by (auto simp: neighbour_cells_def block_def)

lemma comprehension_filter_row:
  "concat (map (\<lambda>j. if P j then [(i, j)] else []) ys) = filter (\<lambda>(a, b). P b) (map (Pair i) ys)"
  by (induction ys) auto

lemma comprehension_filter:
  "concat (map (\<lambda>i. concat (map (\<lambda>j. if P i j then [(i, j)] else []) ys)) xs)
     = filter (\<lambda>(i, j). P i j) (List.product xs ys)"
proof (induction xs)
  case Nil
  then show ?case by simp
next
  case (Cons x xs)
  have "filter (\<lambda>(a, b). P x b) (map (Pair x) ys) = filter (\<lambda>(i, j). P i j) (map (Pair x) ys)"
    by (induction ys) auto
  with Cons show ?case
    by (simp add: comprehension_filter_row)
qed

lemma nearby_mines_eq:
  "nearby_mines g c = int (card ((block c - {c}) \<inter> mine_cells g))"
proof -
  let ?P = "\<lambda>i j. (i, j) \<noteq> c \<and> (0 \<le> i \<and> i < board_height g \<and> 0 \<le> j \<and> j < board_width g) \<and>
    board g ! nat i ! nat j"
  let ?xs = "[fst c - 1 .. fst c + 1]" and ?ys = "[snd c - 1 .. snd c + 1]"
  have "[(i, j). i \<leftarrow> ?xs, j \<leftarrow> ?ys, (i, j) \<noteq> c,
      0 \<le> i \<and> i < board_height g \<and> 0 \<le> j \<and> j < board_width g, board g ! nat i ! nat j]
    = concat (map (\<lambda>i. concat (map (\<lambda>j. if ?P i j then [(i, j)] else []) ?ys)) ?xs)"
    by (intro arg_cong [where f = concat] map_cong refl) auto
  also have "\<dots> = filter (\<lambda>(i, j). ?P i j) (List.product ?xs ?ys)"
    by (rule comprehension_filter)
  finally have eq: "nearby_mines g c = int (length (filter (\<lambda>(i, j). ?P i j) (List.product ?xs ?ys)))"
    by (simp add: nearby_mines_def)
  have "distinct (filter (\<lambda>(i, j). ?P i j) (List.product ?xs ?ys))"
    by (simp add: distinct_product)
  then have "length (filter (\<lambda>(i, j). ?P i j) (List.product ?xs ?ys))
      = card (set (filter (\<lambda>(i, j). ?P i j) (List.product ?xs ?ys)))"
    by (rule distinct_card [symmetric])
  moreover have "set (filter (\<lambda>(i, j). ?P i j) (List.product ?xs ?ys)) = (block c - {c}) \<inter> mine_cells g"
    by (auto simp: block_def mine_cells_def)
  ultimately show ?thesis
    using eq by simp
qed

lemma is_mine_False:
  assumes "is_mine g c = Some False" and "0 \<le> fst c" and "0 \<le> snd c"
  shows "c \<notin> mine_cells g"
  using assms
  by (cases c) (auto simp: is_mine_def index_def mine_cells_def Let_def split: option.splits if_splits)

lemma new_sentence_count:
  assumes "S \<inter> M = {}" and "K0 \<subseteq> M" and "c \<in> S" and "M \<subseteq> G" and "finite B"
  shows "int (card ((B - {c}) \<inter> M)) - int (card (Set.filter (\<lambda>x. x \<in> K0) (B \<inter> G - S)))
    = int (card ((B \<inter> G - S - Set.filter (\<lambda>x. x \<in> K0) (B \<inter> G - S)) \<inter> M))"
proof -
  let ?K = "Set.filter (\<lambda>x. x \<in> K0) (B \<inter> G - S)"
  from assms have sub: "?K \<subseteq> (B - {c}) \<inter> M" by auto
  from assms have eq: "(B \<inter> G - S - ?K) \<inter> M = (B - {c}) \<inter> M - ?K" by auto
  from assms(5) have fin: "finite ((B - {c}) \<inter> M)" by simp
  then have "finite ?K" using sub by (rule rev_finite_subset)
  moreover from fin sub have "card ?K \<le> card ((B - {c}) \<inter> M)" by (rule card_mono)
  ultimately show ?thesis
    using sub by (simp only: eq card_Diff_subset of_nat_diff)
qed

lemma mine_cells_in_grid:
  "mine_cells g \<subseteq> {(i, j). 0 \<le> i \<and> i < board_height g \<and> 0 \<le> j \<and> j < board_width g}"
  by (auto simp: mine_cells_def)

lemma sound_moves_made: "sound M (st\<lparr>moves_made := X\<rparr>) = sound M st"
  by (simp add: sound_def valid_refs_def kb_values_def)

lemma sound_new_ai: "sound M (new_ai h w)"
  by (simp add: sound_def valid_refs_def kb_values_def new_ai_def)

lemma add_knowledge_sound:
  assumes "sound (mine_cells g) st" and "iteration_order ord"
    and "height st = board_height g" and "width st = board_width g"
    and "cell \<notin> mine_cells g"
  shows "\<exists>st'. add_knowledge ord cell (nearby_mines g cell) st = Some st' \<and>
    sound (mine_cells g) st' \<and> height st' = height st \<and> width st' = width st"
proof -
  let ?M = "mine_cells g"
  let ?G = "{(i, j). 0 \<le> i \<and> i < board_height g \<and> 0 \<le> j \<and> j < board_width g}"
  define st1 where "st1 = st\<lparr>moves_made := insert cell (moves_made st)\<rparr>"
  define st2 where "st2 = (if cell \<notin> safes st1 then mark_safe cell st1 else st1)"
  define nb where "nb = neighbour_cells st2 cell"
  define K where "K = Set.filter (\<lambda>c. c \<in> mines st2) nb"
  define new where "new = Sentence (nb - K) (nearby_mines g cell - int (card K))"
  define st3 where "st3 = (if \<not> in_knowledge new st2 \<and> cells new \<noteq> {}
    then append_sentence new st2 else st2)"
  have run: "add_knowledge ord cell (nearby_mines g cell) st = for_sentence ord (knowledge st3) st3"
    by (simp add: add_knowledge_def Let_def st1_def st2_def nb_def K_def new_def st3_def)
  have s1: "sound ?M st1"
    using assms(1) by (simp add: st1_def sound_moves_made)
  have s2: "sound ?M st2"
    using s1 assms(5) by (simp add: st2_def sound_mark_safe)
  have g2: "height st2 = board_height g" "width st2 = board_width g"
    using assms(3,4) by (simp_all add: st2_def st1_def mark_safe_fields)
  have c2: "cell \<in> safes st2"
    by (simp add: st2_def mark_safe_fields)
  from s2 have sm: "safes st2 \<inter> ?M = {}" "mines st2 \<subseteq> ?M"
    by (simp_all add: sound_def)
  have nb: "nb = block cell \<inter> ?G - safes st2"
    by (auto simp: nb_def neighbour_cells_eq g2)
  have "nearby_mines g cell - int (card K) = int (card ((nb - K) \<inter> ?M))"
    unfolding K_def nb nearby_mines_eq
    by (rule new_sentence_count [OF sm c2 mine_cells_in_grid finite_block])
  moreover have "finite nb"
    using finite_block [of cell] by (simp add: nb)
  ultimately have tn: "true_sentence ?M new"
    by (simp add: true_sentence_def new_def Sentence_def)
  have dn: "cells new \<inter> (safes st2 \<union> mines st2) = {}"
    by (auto simp: new_def Sentence_def K_def nb)
  have s3: "sound ?M st3"
    using s2 tn dn by (simp add: st3_def sound_append)
  have g3: "height st3 = height st" "width st3 = width st"
    by (simp_all add: st3_def append_sentence_def observe_def st2_def st1_def mark_safe_fields)
  from s3 have "inv ?M (knowledge st3) st3"
    by (simp add: inv_def pending_def sound_def valid_refs_def)
  from for_sentence_inv [OF assms(2) this] run g3 show ?thesis
    by auto
qed

lemma add_all_sound:
  assumes "iteration_order ord" and "consistent g obs"
  shows "sound (mine_cells g) st \<Longrightarrow> height st = board_height g \<Longrightarrow> width st = board_width g \<Longrightarrow>
    \<exists>st'. add_all ord obs st = Some st' \<and> sound (mine_cells g) st'"
  using assms(2)
proof (induction obs arbitrary: st)
  case Nil
  then show ?case by simp
next
  case (Cons ob obs)
  obtain cell n where ob: "ob = (cell, n)" by (cases ob)
  from Cons.prems(4) ob have c: "is_mine g cell = Some False" "0 \<le> fst cell" "0 \<le> snd cell"
    "n = nearby_mines g cell" and rest: "consistent g obs"
    by (simp_all add: consistent_def)
  from is_mine_False [OF c(1-3)] have "cell \<notin> mine_cells g" .
  from add_knowledge_sound [OF Cons.prems(1) assms(1) Cons.prems(2,3) this] c(4)
  obtain st1 where st1: "add_knowledge ord cell n st = Some st1" "sound (mine_cells g) st1"
    "height st1 = height st" "width st1 = width st"
    by auto
  from Cons.IH [OF st1(2) _ _ rest] st1 Cons.prems(2,3) ob show ?case
    by simp
qed

text \<open>
  C3. After any sequence of \<open>add_knowledge\<close> calls whose observations come from a consistent
  environment, made on a new agent of the board's dimensions, every call has returned,
  \<open>safes\<close> and \<open>mines\<close> are disjoint, and no cell of either occurs in a sentence of the
  knowledge base. This holds for every iteration order of the sets.
\<close>

theorem certainty_sets_disjoint:
  assumes "iteration_order ord" and "consistent g obs"
  shows "\<exists>st. add_all ord obs (new_ai (board_height g) (board_width g)) = Some st \<and>
    safes st \<inter> mines st = {} \<and>
    (\<forall>s \<in> set (kb_values st). cells s \<inter> (safes st \<union> mines st) = {})"
proof -
  have "height (new_ai (board_height g) (board_width g)) = board_height g"
    and "width (new_ai (board_height g) (board_width g)) = board_width g"
    by (simp_all add: new_ai_def)
  from add_all_sound [OF assms sound_new_ai this] obtain st
    where run: "add_all ord obs (new_ai (board_height g) (board_width g)) = Some st"
      and s: "sound (mine_cells g) st"
    by blast
  from s have "safes st \<inter> mines st = {}"
    by (auto simp: sound_def)
  moreover from s have "\<forall>s \<in> set (kb_values st). cells s \<inter> (safes st \<union> mines st) = {}"
    by (simp add: sound_def)
  ultimately show ?thesis
    using run by blast
qed

theorem certainty_sets_disjoint_witness:
  "iteration_order sorted_list_of_set \<and>
   consistent \<lparr>board_height = 1, board_width = 5, board = [[True, False, False, False, False]]\<rparr>
     [((0, 1), 1), ((0, 3), 0)] \<and>
   (\<exists>st. add_all sorted_list_of_set [((0, 1), 1), ((0, 3), 0)] (new_ai 1 5) = Some st \<and>
      safes st \<inter> mines st = {} \<and>
      (\<forall>s \<in> set (kb_values st). cells s \<inter> (safes st \<union> mines st) = {}))"
proof -
  let ?g = "\<lparr>board_height = 1, board_width = 5, board = [[True, False, False, False, False]]\<rparr>"
  have c: "consistent ?g [((0, 1), 1), ((0, 3), 0)]"
    by code_simp
  from certainty_sets_disjoint [OF sorted_list_of_set_order c] sorted_list_of_set_order c
  show ?thesis by simp
qed

text \<open>
  C9. After any such sequence, every sentence of the knowledge base has
  \<open>0 \<le> count \<le> |cells|\<close>, and so has every sentence the knowledge base held during the
  calls: \<open>history\<close> records the knowledge base after every agent-level step.
\<close>

theorem sentence_counts_in_range:
  assumes "iteration_order ord" and "consistent g obs"
  shows "\<exists>st. add_all ord obs (new_ai (board_height g) (board_width g)) = Some st \<and>
    (\<forall>s \<in> set (kb_values st). 0 \<le> count s \<and> count s \<le> int (card (cells s))) \<and>
    (\<forall>snapshot \<in> set (history st). \<forall>s \<in> set snapshot.
       0 \<le> count s \<and> count s \<le> int (card (cells s)))"
proof -
  have "height (new_ai (board_height g) (board_width g)) = board_height g"
    and "width (new_ai (board_height g) (board_width g)) = board_width g"
    by (simp_all add: new_ai_def)
  from add_all_sound [OF assms sound_new_ai this] obtain st
    where run: "add_all ord obs (new_ai (board_height g) (board_width g)) = Some st"
      and s: "sound (mine_cells g) st"
    by blast
  from s have "\<forall>s \<in> set (kb_values st). count_in_range s"
    by (auto simp: sound_def intro: true_sentence_in_range)
  moreover from s have "\<forall>snapshot \<in> set (history st). \<forall>s \<in> set snapshot. count_in_range s"
    by (simp add: sound_def)
  ultimately show ?thesis
    using run unfolding count_in_range_def by blast
qed

theorem sentence_counts_in_range_witness:
  "iteration_order sorted_list_of_set \<and>
   consistent \<lparr>board_height = 3, board_width = 3,
       board = [[True, False, False], [False, False, False], [False, False, True]]\<rparr>
     [((1, 1), 2), ((0, 1), 1)] \<and>
   (\<exists>st. add_all sorted_list_of_set [((1, 1), 2), ((0, 1), 1)] (new_ai 3 3) = Some st \<and>
      (\<forall>s \<in> set (kb_values st). 0 \<le> count s \<and> count s \<le> int (card (cells s))) \<and>
      (\<forall>snapshot \<in> set (history st). \<forall>s \<in> set snapshot.
         0 \<le> count s \<and> count s \<le> int (card (cells s))))"
proof -
  let ?g = "\<lparr>board_height = 3, board_width = 3,
    board = [[True, False, False], [False, False, False], [False, False, True]]\<rparr>"
  have c: "consistent ?g [((1, 1), 2), ((0, 1), 1)]"
    by code_simp
  from sentence_counts_in_range [OF sorted_list_of_set_order c] sorted_list_of_set_order c
  show ?thesis by simp
qed

section \<open>What subset resolution appends\<close>

lemma no_empty_difference:
  assumes "true_sentence M A" and "true_sentence M B" and "A \<noteq> B" and "cells B \<subseteq> cells A"
  shows "cells A - cells B \<noteq> {}"
proof
  assume "cells A - cells B = {}"
  with assms(4) have "cells A = cells B" by auto
  with assms(1,2) have "count A = count B" by (simp add: true_sentence_def)
  with \<open>cells A = cells B\<close> assms(3) show False by simp
qed

lemma appends_checked_step:
  assumes "appends_checked st" and "history st' = history st @ [kb_values st']"
    and "grown_by_new_nonempty (kb_values st) (kb_values st')"
  shows "appends_checked st'"
proof -
  from assms(2) have e: "[] # history st' = ([] # history st) @ [kb_values st']"
    by simp
  have prev: "([] # history st') ! k = ([] # history st) ! k" if "k \<le> length (history st)" for k
    unfolding e using that by (intro nth_append_left) simp
  have "grown_by_new_nonempty (([] # history st') ! k) (history st' ! k)"
    if "k < length (history st')" for k
  proof (cases "k < length (history st)")
    case True
    then have "history st' ! k = history st ! k"
      by (simp add: assms(2) nth_append)
    with True assms(1) prev [of k] show ?thesis
      by (simp add: appends_checked_def)
  next
    case False
    with that assms(2) have k: "k = length (history st)" by simp
    have "([] # history st) ! length (history st) = last ([] # history st)"
      by (simp add: last_conv_nth)
    with assms(1) prev [of k] k have "([] # history st') ! k = kb_values st"
      by (simp add: appends_checked_def)
    moreover from k have "history st' ! k = kb_values st'"
      by (simp add: assms(2))
    ultimately show ?thesis
      using assms(3) by simp
  qed
  moreover have "last ([] # history st') = kb_values st'"
    by (simp add: assms(2))
  ultimately show ?thesis
    by (simp add: appends_checked_def)
qed

lemma appends_checked_mark_safe: "appends_checked st \<Longrightarrow> appends_checked (mark_safe c st)"
  by (rule appends_checked_step [where st = st])
    (simp_all add: mark_safe_fields grown_by_new_nonempty_def kb_values_def)

lemma appends_checked_mark_mine: "appends_checked st \<Longrightarrow> appends_checked (mark_mine c st)"
  by (rule appends_checked_step [where st = st])
    (simp_all add: mark_mine_fields grown_by_new_nonempty_def kb_values_def)

lemma appends_checked_fold_mark_safe:
  "appends_checked st \<Longrightarrow> appends_checked (fold mark_safe xs st)"
  by (induction xs arbitrary: st) (simp_all add: appends_checked_mark_safe)

lemma appends_checked_fold_mark_mine:
  "appends_checked st \<Longrightarrow> appends_checked (fold mark_mine xs st)"
  by (induction xs arbitrary: st) (simp_all add: appends_checked_mark_mine)

lemma appends_checked_drop_empty:
  assumes "appends_checked st"
  shows "appends_checked (drop_empty st)"
proof (rule appends_checked_step [OF assms])
  show "history (drop_empty st) = history st @ [kb_values (drop_empty st)]"
    by (simp add: drop_empty_def observe_def kb_values_def)
  have "length (kb_values (drop_empty st)) \<le> length (kb_values st)"
    by (simp add: drop_empty_def observe_def kb_values_def)
  then show "grown_by_new_nonempty (kb_values st) (kb_values (drop_empty st))"
    by (simp add: grown_by_new_nonempty_def)
qed

lemma appends_checked_append:
  assumes "appends_checked st" and "valid_refs st" and "s \<notin> set (kb_values st)"
    and "cells s \<noteq> {}"
  shows "appends_checked (append_sentence s st)"
proof (rule appends_checked_step [OF assms(1)])
  show "history (append_sentence s st) = history st @ [kb_values (append_sentence s st)]"
    by (simp add: append_sentence_def observe_def kb_values_def)
  show "grown_by_new_nonempty (kb_values st) (kb_values (append_sentence s st))"
    using assms(3,4) by (simp add: kb_values_append [OF assms(2)] grown_by_new_nonempty_def)
qed


lemma for_other_sentence_checked:
  assumes "sound M st" and "r < length (heap st)" and "true_sentence M (heap st ! r)"
    and "cells (heap st ! r) \<inter> (safes st \<union> mines st) = {}" and "appends_checked st"
  shows "\<exists>st'. for_other_sentence r j st = Some st' \<and>
    for_other_sentence_spec r j st = Some st' \<and> appends_checked st'"
  using assms
proof (induction "steps_left r j st" arbitrary: j st rule: less_induct)
  case less
  let ?A = "heap st ! r"
  let ?B = "heap st ! (knowledge st ! j)"
  let ?C = "Sentence (cells ?A - cells ?B) (count ?A - count ?B)"
  show ?case
  proof (cases "j < length (knowledge st)")
    case False
    then have "for_other_sentence r j st = Some st" "for_other_sentence_spec r j st = Some st"
      by (simp_all add: for_other_sentence.simps for_other_sentence_spec.simps)
    with less.prems show ?thesis by simp
  next
    case True
    then have B: "?B \<in> set (kb_values st)"
      by (simp add: kb_values_def)
    with less.prems(1) have tB: "true_sentence M ?B"
      by (simp add: sound_def)
    show ?thesis
    proof (cases "?A \<noteq> ?B \<and> cells ?B \<subseteq> cells ?A \<and> \<not> in_knowledge ?C st")
      case False
      then have "for_other_sentence r j st = for_other_sentence r (Suc j) st"
        using True by (subst for_other_sentence.simps) (auto simp: sentence_eq_iff Let_def)
      moreover from False
      have "for_other_sentence_spec r j st = for_other_sentence_spec r (Suc j) st"
        using True by (subst for_other_sentence_spec.simps) (auto simp: sentence_eq_iff Let_def)
      moreover from less.hyps [OF steps_left_next [OF True] less.prems]
      obtain st' where "for_other_sentence r (Suc j) st = Some st'"
        "for_other_sentence_spec r (Suc j) st = Some st'" "appends_checked st'"
        by blast
      ultimately show ?thesis by simp
    next
      case trig: True
      let ?nxt = "append_sentence ?C st"
      from less.prems(3) tB trig have ne: "cells ?C \<noteq> {}"
        using no_empty_difference [of M ?A ?B] by (simp add: Sentence_def)
      from trig have run: "for_other_sentence r j st = for_other_sentence r (Suc j) ?nxt"
        using True by (subst for_other_sentence.simps) (simp add: sentence_eq_iff Let_def)
      from trig ne have run_spec:
        "for_other_sentence_spec r j st = for_other_sentence_spec r (Suc j) ?nxt"
        using True by (subst for_other_sentence_spec.simps) (simp add: sentence_eq_iff Let_def)
      from less.prems(1) have v: "valid_refs st" by (simp add: sound_def)
      have tC: "true_sentence M ?C"
        using less.prems(3) tB trig by (simp add: true_sentence_difference)
      have dC: "cells ?C \<inter> (safes st \<union> mines st) = {}"
        using less.prems(4) by (auto simp: Sentence_def)
      have snd: "sound M ?nxt"
        by (rule sound_append [OF less.prems(1) tC dC])
      have A2: "heap ?nxt ! r = ?A"
        using less.prems(2) by (simp add: append_sentence_def observe_def nth_append)
      have r2: "r < length (heap ?nxt)"
        using less.prems(2) by (simp add: append_sentence_def observe_def)
      have sm2: "safes ?nxt = safes st" "mines ?nxt = mines st"
        by (simp_all add: append_sentence_def observe_def)
      have ac2: "appends_checked ?nxt"
        using less.prems(5) v trig ne by (intro appends_checked_append) (simp_all add: in_knowledge_iff)
      have kb2: "kb_values ?nxt = kb_values st @ [?C]"
        by (rule kb_values_append [OF v])
      have len2: "length (knowledge ?nxt) = Suc (length (knowledge st))"
        by (simp add: append_sentence_def observe_def)
      have candB: "Sentence (cells ?A - cells ?C) (count ?A - count ?C) = ?B"
      proof -
        from trig have "cells ?A - (cells ?A - cells ?B) = cells ?B" by auto
        then show ?thesis by (simp add: Sentence_def)
      qed
      have notrig: "\<not> trigger ?A (kb_values st @ [?C]) ?C"
        using B by (simp add: trigger_def candB)
      have jlen: "j < length (kb_values st)" and Bj: "?B = kb_values st ! j"
        using True by (simp_all add: kb_values_def)
      then have dropj: "drop j (kb_values st) = ?B # drop (Suc j) (kb_values st)"
        by (simp add: Cons_nth_drop_Suc)
      have trigB: "trigger ?A (kb_values st) ?B"
        using trig by (simp add: trigger_def in_knowledge_iff)
      have "length (filter (trigger ?A (kb_values st @ [?C])) (drop (Suc j) (kb_values st)))
          \<le> length (filter (trigger ?A (kb_values st)) (drop (Suc j) (kb_values st)))"
        by (rule length_filter_mono) (simp add: trigger_def)
      then have dec: "steps_left r (Suc j) ?nxt < steps_left r j st"
        using jlen True notrig trigB
        by (simp add: steps_left_def A2 kb2 len2 dropj)
      from less.hyps [OF dec snd r2] tC less.prems(3,4) A2 sm2 ac2
      obtain st' where "for_other_sentence r (Suc j) ?nxt = Some st'"
        "for_other_sentence_spec r (Suc j) ?nxt = Some st'" "appends_checked st'"
        by auto
      with run run_spec show ?thesis by simp
    qed
  qed
qed

lemma loop_body_checked:
  assumes "inv M (r # rs) st" and "iteration_order ord" and "appends_checked st"
  shows "\<exists>st'. loop_body ord r st = Some st' \<and> loop_body_spec ord r st = Some st' \<and>
    appends_checked st'"
proof -
  let ?safes = "fst (known_safes (heap st ! r))"
  let ?mines = "fst (known_mines (heap st ! r))"
  let ?a = "fold mark_safe (ord ?safes) st"
  let ?b = "fold mark_mine (ord ?mines) ?a"
  let ?c = "drop_empty ?b"
  have spec_alt: "loop_body_spec ord r st = for_other_sentence_spec r 0 ?c"
    by (simp add: loop_body_spec_def drop_empty_def Let_def)
  from assms(1) have t: "true_sentence M (heap st ! r)"
    using pending_true_sentence [of M st r] by (simp add: inv_def)
  from known_safes_safe [OF t] assms(2) have "set (ord ?safes) \<inter> M = {}"
    by (simp add: iteration_order_def)
  with assms(1) have a: "inv M (r # rs) ?a"
    by (rule inv_fold_mark_safe)
  from known_mines_mines [OF t] assms(2) have "set (ord ?mines) \<subseteq> M"
    by (simp add: iteration_order_def)
  with a have "inv M (r # rs) ?b"
    by (rule inv_fold_mark_mine)
  then have c: "inv M (r # rs) ?c"
    by (rule inv_drop_empty)
  then have sc: "sound M ?c" and pc: "pending ?c r"
    by (simp_all add: inv_def)
  from pc have rc: "r < length (heap ?c)" by (simp add: pending_def)
  have ac: "appends_checked ?c"
    using assms(3)
    by (intro appends_checked_drop_empty appends_checked_fold_mark_mine
        appends_checked_fold_mark_safe)
  from pending_true_sentence [OF sc pc] for_other_sentence_checked [OF sc rc _ _ ac, of 0]
  show ?thesis
    by (simp add: loop_body_alt spec_alt)
qed

lemma for_sentence_checked:
  assumes "iteration_order ord"
  shows "inv M rs st \<Longrightarrow> appends_checked st \<Longrightarrow>
    \<exists>st'. for_sentence ord rs st = Some st' \<and> for_sentence_spec ord rs st = Some st' \<and>
      appends_checked st'"
proof (induction rs arbitrary: st)
  case Nil
  then show ?case by simp
next
  case (Cons r rs)
  from loop_body_checked [OF Cons.prems(1) assms Cons.prems(2)] obtain st1
    where b: "loop_body ord r st = Some st1" "loop_body_spec ord r st = Some st1"
      "appends_checked st1"
    by blast
  from loop_body_inv [OF Cons.prems(1) assms] b(1) have "inv M rs st1"
    by auto
  from Cons.IH [OF this b(3)] b show ?case by simp
qed


lemma appends_checked_moves_made:
  "appends_checked (st\<lparr>moves_made := X\<rparr>) = appends_checked st"
  by (simp add: appends_checked_def kb_values_def)

lemma appends_checked_new_ai: "appends_checked (new_ai h w)"
  by (simp add: appends_checked_def kb_values_def new_ai_def)

lemma add_knowledge_checked:
  assumes "sound (mine_cells g) st" and "iteration_order ord"
    and "height st = board_height g" and "width st = board_width g"
    and "cell \<notin> mine_cells g" and "appends_checked st"
  shows "\<exists>st'. add_knowledge ord cell (nearby_mines g cell) st = Some st' \<and>
    add_knowledge_spec ord cell (nearby_mines g cell) st = Some st' \<and> appends_checked st'"
proof -
  let ?M = "mine_cells g"
  let ?G = "{(i, j). 0 \<le> i \<and> i < board_height g \<and> 0 \<le> j \<and> j < board_width g}"
  define st1 where "st1 = st\<lparr>moves_made := insert cell (moves_made st)\<rparr>"
  define st2 where "st2 = (if cell \<notin> safes st1 then mark_safe cell st1 else st1)"
  define nb where "nb = neighbour_cells st2 cell"
  define K where "K = Set.filter (\<lambda>c. c \<in> mines st2) nb"
  define new where "new = Sentence (nb - K) (nearby_mines g cell - int (card K))"
  define st3 where "st3 = (if \<not> in_knowledge new st2 \<and> cells new \<noteq> {}
    then append_sentence new st2 else st2)"
  have run: "add_knowledge ord cell (nearby_mines g cell) st = for_sentence ord (knowledge st3) st3"
    by (simp add: add_knowledge_def Let_def st1_def st2_def nb_def K_def new_def st3_def)
  have run_spec: "add_knowledge_spec ord cell (nearby_mines g cell) st
    = for_sentence_spec ord (knowledge st3) st3"
    by (simp add: add_knowledge_spec_def Let_def st1_def st2_def nb_def K_def new_def st3_def)
  have s1: "sound ?M st1"
    using assms(1) by (simp add: st1_def sound_moves_made)
  have s2: "sound ?M st2"
    using s1 assms(5) by (simp add: st2_def sound_mark_safe)
  have g2: "height st2 = board_height g" "width st2 = board_width g"
    using assms(3,4) by (simp_all add: st2_def st1_def mark_safe_fields)
  have c2: "cell \<in> safes st2"
    by (simp add: st2_def mark_safe_fields)
  from s2 have sm: "safes st2 \<inter> ?M = {}" "mines st2 \<subseteq> ?M"
    by (simp_all add: sound_def)
  have nb: "nb = block cell \<inter> ?G - safes st2"
    by (auto simp: nb_def neighbour_cells_eq g2)
  have "nearby_mines g cell - int (card K) = int (card ((nb - K) \<inter> ?M))"
    unfolding K_def nb nearby_mines_eq
    by (rule new_sentence_count [OF sm c2 mine_cells_in_grid finite_block])
  moreover have "finite nb"
    using finite_block [of cell] by (simp add: nb)
  ultimately have tn: "true_sentence ?M new"
    by (simp add: true_sentence_def new_def Sentence_def)
  have dn: "cells new \<inter> (safes st2 \<union> mines st2) = {}"
    by (auto simp: new_def Sentence_def K_def nb)
  have s3: "sound ?M st3"
    using s2 tn dn by (simp add: st3_def sound_append)
  have "appends_checked st1"
    using assms(6) by (simp add: st1_def appends_checked_moves_made)
  then have ac2: "appends_checked st2"
    by (simp add: st2_def appends_checked_mark_safe)
  from s2 have v2: "valid_refs st2" by (simp add: sound_def)
  have ac3: "appends_checked st3"
  proof (cases "\<not> in_knowledge new st2 \<and> cells new \<noteq> {}")
    case True
    with ac2 v2 have "appends_checked (append_sentence new st2)"
      by (intro appends_checked_append) (simp_all add: in_knowledge_iff)
    moreover from True have "st3 = append_sentence new st2"
      unfolding st3_def by (rule if_P)
    ultimately show ?thesis by simp
  next
    case False
    then have "st3 = st2"
      unfolding st3_def by (rule if_not_P)
    with ac2 show ?thesis by simp
  qed
  from s3 have "inv ?M (knowledge st3) st3"
    by (simp add: inv_def pending_def sound_def valid_refs_def)
  from for_sentence_checked [OF assms(2) this ac3] run run_spec show ?thesis
    by simp
qed

lemma add_all_checked:
  assumes "iteration_order ord" and "consistent g obs"
  shows "sound (mine_cells g) st \<Longrightarrow> height st = board_height g \<Longrightarrow> width st = board_width g \<Longrightarrow>
    appends_checked st \<Longrightarrow>
    \<exists>st'. add_all ord obs st = Some st' \<and> add_all_spec ord obs st = Some st' \<and>
      appends_checked st'"
  using assms(2)
proof (induction obs arbitrary: st)
  case Nil
  then show ?case by simp
next
  case (Cons ob obs)
  obtain cell n where ob: "ob = (cell, n)" by (cases ob)
  from Cons.prems(5) ob have c: "is_mine g cell = Some False" "0 \<le> fst cell" "0 \<le> snd cell"
    "n = nearby_mines g cell" and rest: "consistent g obs"
    by (simp_all add: consistent_def)
  from is_mine_False [OF c(1-3)] have nm: "cell \<notin> mine_cells g" .
  from add_knowledge_checked [OF Cons.prems(1) assms(1) Cons.prems(2,3) nm Cons.prems(4)] c(4)
  obtain st1 where st1: "add_knowledge ord cell n st = Some st1"
    "add_knowledge_spec ord cell n st = Some st1" "appends_checked st1"
    by auto
  from add_knowledge_sound [OF Cons.prems(1) assms(1) Cons.prems(2,3) nm] c(4) st1(1)
  have s1: "sound (mine_cells g) st1" "height st1 = height st" "width st1 = width st"
    by auto
  from Cons.IH [OF s1(1) _ _ st1(3) rest] s1 st1 Cons.prems(2,3) ob show ?case
    by simp
qed

text \<open>
  C2. In every run of \<open>add_knowledge\<close> calls from a consistent environment, whenever the
  knowledge base grows, it grows by one sentence that was not already present and whose
  cell set is not empty: no empty sentence is ever appended, by subset resolution or
  otherwise. The run is also the run of the loop that tests the candidate for emptiness,
  as the specification's step (c) does.
\<close>

theorem subset_resolution_appends_nonempty:
  assumes "iteration_order ord" and "consistent g obs"
  shows "\<exists>st. add_all ord obs (new_ai (board_height g) (board_width g)) = Some st \<and>
    add_all_spec ord obs (new_ai (board_height g) (board_width g)) = Some st \<and>
    (\<forall>k < length (history st).
       grown_by_new_nonempty (([] # history st) ! k) (history st ! k))"
proof -
  have "height (new_ai (board_height g) (board_width g)) = board_height g"
    and "width (new_ai (board_height g) (board_width g)) = board_width g"
    by (simp_all add: new_ai_def)
  from add_all_checked [OF assms sound_new_ai this appends_checked_new_ai]
  show ?thesis
    by (auto simp: appends_checked_def)
qed

theorem subset_resolution_appends_nonempty_witness:
  "iteration_order sorted_list_of_set \<and>
   consistent \<lparr>board_height = 3, board_width = 3,
       board = [[False, True, False], [False, False, False], [False, False, False]]\<rparr>
     [((1, 1), 1), ((0, 0), 1)] \<and>
   (\<exists>st. add_all sorted_list_of_set [((1, 1), 1), ((0, 0), 1)] (new_ai 3 3) = Some st \<and>
      add_all_spec sorted_list_of_set [((1, 1), 1), ((0, 0), 1)] (new_ai 3 3) = Some st \<and>
      (\<forall>k < length (history st).
         grown_by_new_nonempty (([] # history st) ! k) (history st ! k)))"
proof -
  let ?g = "\<lparr>board_height = 3, board_width = 3,
    board = [[False, True, False], [False, False, False], [False, False, False]]\<rparr>"
  have c: "consistent ?g [((1, 1), 1), ((0, 0), 1)]"
    by code_simp
  from subset_resolution_appends_nonempty [OF sorted_list_of_set_order c]
    sorted_list_of_set_order c
  show ?thesis by simp
qed

section \<open>Runs of \<open>add_knowledge\<close> on concrete boards\<close>

text \<open>
  C1. On a board of one row and five columns with its only mine at \<open>(0, 0)\<close>, the game
  reports \<open>1\<close> for \<open>(0, 1)\<close> and \<open>0\<close> for \<open>(0, 3)\<close>. After the two calls the knowledge base
  holds the sentence \<open>{(0, 0)} = 1\<close>, whose only cell is a known mine, and \<open>mines\<close> is
  still empty: the sentence was visited before the second sentence shrank it, and the
  single pass never returns to it.
\<close>

theorem add_knowledge_leaves_known_mine_unmarked:
  "is_mine \<lparr>board_height = 1, board_width = 5,
      board = [[True, False, False, False, False]]\<rparr> (0, 1) = Some False \<and>
   nearby_mines \<lparr>board_height = 1, board_width = 5,
      board = [[True, False, False, False, False]]\<rparr> (0, 1) = 1 \<and>
   is_mine \<lparr>board_height = 1, board_width = 5,
      board = [[True, False, False, False, False]]\<rparr> (0, 3) = Some False \<and>
   nearby_mines \<lparr>board_height = 1, board_width = 5,
      board = [[True, False, False, False, False]]\<rparr> (0, 3) = 0 \<and>
   map_option (\<lambda>st. (kb_values st, mines st, safes st))
     (add_all sorted_list_of_set [((0, 1), 1), ((0, 3), 0)] (new_ai 1 5))
     = Some ([Sentence {(0, 0)} 1], {}, {(0, 1), (0, 2), (0, 3), (0, 4)}) \<and>
   fst (known_mines (Sentence {(0, 0)} 1)) = {(0, 0)}"
  by code_simp

end
